theory Spec2Isabelle
  imports Complex_Main "HOL-Library.Word" "HOL-Library.Log_Nat"
begin

section \<open>Tasks, errors and the panic-isolating wrapper\<close>

text \<open>
  The pool package of zkit (one Go file). A \<open>Task\<close> is an interface with the single
  method \<open>Run(ctx) error\<close>. What a call of \<open>Run\<close> does is the caller's business; the
  pool only sees how the call ends: it returns an error value (possibly \<open>nil\<close>), or it
  panics. A panic is recorded with the \<open>%+v\<close> rendering of the panic value and with the
  frames of the goroutine's stack at the time the deferred function runs.
  Go 1.21 and later turn \<open>panic(nil)\<close> into a non-nil runtime error, so \<open>recover()\<close>
  returns a non-nil value for every panic.
\<close>

datatype error =
    ErrTaskRunningPanic
  | ErrorString string
  | WrapError string error

datatype run_result =
    Return "error option"
  | Panicked string string

datatype Task = Task nat run_result

fun task_id :: "Task \<Rightarrow> nat" where
  "task_id (Task n r) = n"

fun Run :: "Task \<Rightarrow> run_result" where
  "Run (Task n r) = r"

definition panicBuffLen :: nat where
  "panicBuffLen = 2048"

text \<open>The text of \<open>errors.New("zkit: Task ...")\<close>, as the UTF-8 bytes of the source literal.\<close>

definition errTaskRunningPanic_text :: string where
  "errTaskRunningPanic_text =
     ''zkit: Task '' @ map char_of
       [232, 191, 144, 232, 161, 140, 230, 151, 182, 229, 188, 130, 229, 184, 184 :: nat]"

text \<open>The separator of the format string \<open>"%w(fullwidth colon)%s"\<close>: three UTF-8 bytes.\<close>

definition fullwidth_colon :: string where
  "fullwidth_colon = map char_of [239, 188, 154 :: nat]"

fun Error :: "error \<Rightarrow> string" where
  "Error ErrTaskRunningPanic = errTaskRunningPanic_text"
| "Error (ErrorString s) = s"
| "Error (WrapError msg e) = msg"

text \<open>\<open>errors.Is(e, target)\<close> along the chain of \<open>Unwrap\<close>.\<close>

fun errors_Is :: "error \<Rightarrow> error \<Rightarrow> bool" where
  "errors_Is (WrapError msg e) target = (WrapError msg e = target \<or> errors_Is e target)"
| "errors_Is e target = (e = target)"

text \<open>
  \<open>runtime.Stack(buf, false)\<close> formats the calling goroutine's trace into \<open>buf\<close> and
  returns the number of bytes written, at most \<open>len(buf)\<close>. The trace always starts with
  the goroutine header; the frames are the task's.
\<close>

definition goroutine_trace :: "string \<Rightarrow> string" where
  "goroutine_trace frames = ''goroutine '' @ frames"

definition runtime_Stack :: "nat \<Rightarrow> string \<Rightarrow> string" where
  "runtime_Stack buflen frames = take buflen (goroutine_trace frames)"

text \<open>\<open>fmt.Sprintf("[PANIC]:\t%+v\n%s\n", r, buf)\<close>.\<close>

definition panic_report :: "string \<Rightarrow> string \<Rightarrow> string" where
  "panic_report r buf =
     ''[PANIC]:'' @ [char_of (9::nat)] @ r @ [char_of (10::nat)] @ buf @ [char_of (10::nat)]"

text \<open>\<open>fmt.Errorf("%w(fullwidth colon)%s", errTaskRunningPanic, report)\<close>.\<close>

definition panic_error :: "string \<Rightarrow> string \<Rightarrow> error" where
  "panic_error r buf =
     WrapError (Error ErrTaskRunningPanic @ fullwidth_colon @ panic_report r buf)
       ErrTaskRunningPanic"

text \<open>
  \<open>taskWrapper.Run\<close>: the deferred function recovers a panic, takes the stack into a
  buffer of \<open>panicBuffLen\<close> bytes and overwrites the named result; otherwise the result
  of the wrapped \<open>Run\<close> is returned as it is.
\<close>

definition taskWrapper_Run_buf :: "nat \<Rightarrow> Task \<Rightarrow> error option" where
  "taskWrapper_Run_buf buflen t =
     (case Run t of
        Return e \<Rightarrow> e
      | Panicked r frames \<Rightarrow> Some (panic_error r (runtime_Stack buflen frames)))"

definition taskWrapper_Run :: "Task \<Rightarrow> error option" where
  "taskWrapper_Run t = taskWrapper_Run_buf panicBuffLen t"

section \<open>Floating point, failures\<close>

text \<open>
  The metrics are \<open>float64\<close>. A finite value is kept as the rational number that the
  double denotes, and every operation rounds its exact result to the nearest double,
  ties to the even mantissa (53 bits). The exponent range is not modelled: the pool
  divides and multiplies integers below \<open>2^63\<close> only, far from overflow and from the
  subnormal numbers. What a zero divisor gives (an infinity or NaN) is kept, and every
  ordered comparison with NaN is false.
\<close>

text \<open>The nearest integer, ties to even.\<close>

definition round_even :: "rat \<Rightarrow> int" where
  "round_even r =
     (let f = \<lfloor>r\<rfloor>; d = r - of_int f in
      if d < 1 / 2 then f else if 1 / 2 < d then f + 1 else if even f then f else f + 1)"

text \<open>The binary exponent of a number that is not zero: \<open>2^e \<le> |x| < 2^(e+1)\<close>.\<close>

definition ilog2 :: "rat \<Rightarrow> int" where
  "ilog2 x =
     (let (a, b) = quotient_of \<bar>x\<bar>; d = bitlen a - bitlen b in
      if 2 powi d \<le> \<bar>x\<bar> then d else d - 1)"

text \<open>The double nearest to \<open>x\<close>: a multiple of \<open>2^(e-52)\<close>.\<close>

definition f64_round :: "rat \<Rightarrow> rat" where
  "f64_round x =
     (if x = 0 then 0
      else let s = 2 powi (ilog2 x - 52) in of_int (round_even (x / s)) * s)"

text \<open>The constants \<open>1.2\<close>, \<open>0.8\<close> and \<open>0.2\<close> of the source, as doubles.\<close>

definition f64_1_2 :: rat where "f64_1_2 = f64_round (6 / 5)"

definition f64_0_8 :: rat where "f64_0_8 = f64_round (4 / 5)"

definition f64_0_2 :: rat where "f64_0_2 = f64_round (1 / 5)"

datatype float64 = Fin rat | PInf | NInf | NaN

text \<open>\<open>float64(a) / float64(b)\<close> for integers \<open>a\<close>, \<open>b\<close>.\<close>

definition float64_quot :: "int \<Rightarrow> int \<Rightarrow> float64" where
  "float64_quot a b =
     (if b \<noteq> 0 then Fin (f64_round (f64_round (of_int a) / f64_round (of_int b)))
      else if a = 0 then NaN
      else if 0 < a then PInf else NInf)"

fun f64_less :: "float64 \<Rightarrow> float64 \<Rightarrow> bool" where
  "f64_less (Fin a) (Fin b) = (a < b)"
| "f64_less (Fin a) PInf = True"
| "f64_less NInf (Fin b) = True"
| "f64_less NInf PInf = True"
| "f64_less x y = False"

definition f64_greater :: "float64 \<Rightarrow> float64 \<Rightarrow> bool" where
  "f64_greater x y = f64_less y x"

text \<open>\<open>1.0 - x\<close>.\<close>

fun one_minus :: "float64 \<Rightarrow> float64" where
  "one_minus (Fin r) = Fin (f64_round (1 - r))"
| "one_minus PInf = NInf"
| "one_minus NInf = PInf"
| "one_minus NaN = NaN"

text \<open>Go's conversion \<open>int(f)\<close> of a finite float: the fraction is discarded.\<close>

definition go_int :: "rat \<Rightarrow> int" where
  "go_int r = (if 0 \<le> r then \<lfloor>r\<rfloor> else \<lceil>r\<rceil>)"

text \<open>\<open>int(float64(n) * k)\<close> for a double \<open>k\<close>.\<close>

definition scale_count :: "rat \<Rightarrow> int \<Rightarrow> int" where
  "scale_count k n = go_int (f64_round (f64_round (of_int n) * k))"

text \<open>
  How a call that does not complete ends: the goroutine panics (an unrecovered panic ends
  the process), it blocks at this point, or the call returns a rejection to its caller.
  Nothing in the source returns a rejection; it is the answer of the submission that the
  specification describes, see \<open>Submit\<close>.
\<close>

datatype failure = Panic string | Blocked | Rejected

section \<open>Workers\<close>

text \<open>
  A worker owns an unbuffered channel \<open>tasks\<close> and a channel \<open>quit\<close>. Its goroutine
  loops over a \<open>select\<close> on both. A send on the unbuffered channel in a \<open>select\<close> with a
  \<open>default\<close> case succeeds exactly when the goroutine is parked in its \<open>select\<close>; this
  is \<open>waiting\<close>. A freshly started goroutine has not reached the \<open>select\<close> yet, and a goroutine
  that runs a task is not there either. \<open>handled\<close> logs the tasks the loop has taken, with the
  result of the wrapped run, which the loop discards.
\<close>

record worker =
  wid :: int
  waiting :: bool
  quit_closed :: bool
  handled :: "(Task \<times> error option) list"

text \<open>\<open>newWorker(id)\<close> followed by \<open>start()\<close>.\<close>

definition newWorker :: "int \<Rightarrow> worker" where
  "newWorker i = \<lparr>wid = i, waiting = False, quit_closed = False, handled = []\<rparr>"

text \<open>
  \<open>select { case w.tasks <- t: ... default: ... }\<close> seen from the sender: \<open>Some\<close> the
  worker after it took the task (the loop body wraps the task and runs it), \<open>None\<close> for the
  \<open>default\<close> case.
\<close>

definition try_send :: "worker \<Rightarrow> Task \<Rightarrow> worker option" where
  "try_send w t =
     (if waiting w \<and> \<not> quit_closed w
      then Some (w\<lparr>waiting := False, handled := handled w @ [(t, taskWrapper_Run t)]\<rparr>)
      else None)"

text \<open>The goroutine comes back to its \<open>select\<close> (after start, or after a task).\<close>

definition worker_parks :: "worker \<Rightarrow> worker" where
  "worker_parks w = (if quit_closed w then w else w\<lparr>waiting := True\<rparr>)"

text \<open>\<open>worker.stop\<close>: \<open>close(w.quit)\<close>; a parked goroutine returns from its loop.\<close>

definition worker_stop :: "worker \<Rightarrow> worker" where
  "worker_stop w = w\<lparr>quit_closed := True, waiting := False\<rparr>"

section \<open>The pool\<close>

record chan =
  chan_buf :: "Task list"
  chan_cap :: nat
  chan_closed :: bool

text \<open>
  Of \<open>PoolMetrics\<close> only the two fields that the scaling rules read are kept;
  \<open>cpuUsage\<close> and \<open>memoryUsage\<close> are written from the runtime's memory statistics and
  read nowhere, the other fields are never touched.
\<close>

record PoolMetrics =
  queueUsage :: float64
  idleWorkers :: float64

text \<open>
  \<open>workerLoads\<close> is \<open>[]int32\<close>, updated with \<open>atomic.AddInt32\<close>, which wraps.
  \<open>currentWorkers\<close> is an \<open>int32\<close> too, but it counts started goroutines and is an
  \<open>int\<close> here. \<open>rlocks\<close> is the number of read locks on \<open>mu\<close> that are held between two
  operations; \<open>mu.Lock()\<close> returns only when it is zero. \<open>fallback\<close> logs the tasks
  started with \<open>go t.Run(...)\<close>, \<open>retired\<close> the workers stopped by a shrink.
\<close>

record WorkPool =
  minWorkers :: int
  maxWorkers :: int
  currentWorkers :: int
  taskQueue :: chan
  workers :: "worker list"
  metrics :: PoolMetrics
  workerLoads :: "32 word list"
  adjustThreshold :: float64
  rlocks :: nat
  fallback :: "Task list"
  retired :: "worker list"

text \<open>
  \<open>NewWorkPool\<close>. \<open>make\<close> panics on a negative size. The two background goroutines it
  starts are the operations \<open>dispatch\<close> and \<open>adjustWorkers_tick\<close> below.
\<close>

definition NewWorkPool :: "int \<Rightarrow> int \<Rightarrow> int \<Rightarrow> failure + WorkPool" where
  "NewWorkPool minW maxW queueSize =
     (if queueSize < 0 then Inl (Panic ''makechan: size out of range'')
      else if maxW < 0 then Inl (Panic ''makeslice: cap out of range'')
      else Inr \<lparr>minWorkers = minW, maxWorkers = maxW, currentWorkers = minW,
        taskQueue = \<lparr>chan_buf = [], chan_cap = nat queueSize, chan_closed = False\<rparr>,
        workers = map newWorker [0..minW - 1],
        metrics = \<lparr>queueUsage = Fin 0, idleWorkers = Fin 0\<rparr>,
        workerLoads = replicate (nat maxW) 0,
        adjustThreshold = Fin f64_0_8,
        rlocks = 0, fallback = [], retired = []\<rparr>)"

section \<open>Selection and dispatch\<close>

definition MaxInt32 :: "32 word" where
  "MaxInt32 = 2147483647"

text \<open>
  The loop of \<open>selectWorker\<close> over \<open>workerLoads\<close>: \<open>n\<close> is \<open>len(p.workers)\<close>, \<open>i\<close>
  the index of the head of the list, \<open>minLoad\<close> and \<open>sel\<close> the two loop variables. The
  comparison of two \<open>int32\<close> is signed.
\<close>

fun select_scan :: "32 word list \<Rightarrow> nat \<Rightarrow> nat \<Rightarrow> 32 word \<Rightarrow> int \<Rightarrow> int" where
  "select_scan [] n i minLoad sel = sel"
| "select_scan (load # loads) n i minLoad sel =
     (if n \<le> i then sel
      else if load <s minLoad then select_scan loads n (Suc i) load (int i)
      else select_scan loads n (Suc i) minLoad sel)"

definition selectWorker :: "WorkPool \<Rightarrow> int" where
  "selectWorker p =
     (if length (workers p) = 0 then - 1
      else select_scan (workerLoads p) (length (workers p)) 0 MaxInt32 (- 1))"

text \<open>\<open>atomic.AddInt32(&p.workerLoads[i], 1)\<close>; an index out of range panics.\<close>

definition add_load :: "WorkPool \<Rightarrow> nat \<Rightarrow> failure + WorkPool" where
  "add_load p i =
     (if i < length (workerLoads p)
      then Inr (p\<lparr>workerLoads := (workerLoads p)[i := workerLoads p ! i + 1]\<rparr>)
      else Inl (Panic ''index out of range''))"

section \<open>Scaling\<close>

text \<open>
  The loop \<open>for i := from; i < to; i++\<close> of both scale-ups: a new worker with id \<open>i\<close> is
  appended and started, and the counter is incremented.
\<close>

definition start_worker :: "WorkPool \<Rightarrow> int \<Rightarrow> WorkPool" where
  "start_worker p i =
     p\<lparr>workers := workers p @ [newWorker i], currentWorkers := currentWorkers p + 1\<rparr>"

definition grow_loop :: "WorkPool \<Rightarrow> int \<Rightarrow> int \<Rightarrow> WorkPool" where
  "grow_loop p from to = foldl start_worker p [from..to - 1]"

text \<open>
  \<open>quickScaleUp\<close> in two parts. Before \<open>p.mu.Lock()\<close> it loads the counter and computes
  the target; \<open>None\<close> is the early return. Under the lock it runs the loop with the
  two numbers it computed before. The lock is granted only when no read lock is held.
\<close>

definition quickScaleUp_plan :: "WorkPool \<Rightarrow> (int \<times> int) option" where
  "quickScaleUp_plan p =
     (let cur = currentWorkers p in
      if maxWorkers p \<le> cur then None
      else let target = scale_count f64_1_2 cur in
        Some (cur, if maxWorkers p < target then maxWorkers p else target))"

definition quickScaleUp_commit :: "WorkPool \<Rightarrow> int \<times> int \<Rightarrow> failure + WorkPool" where
  "quickScaleUp_commit p ct =
     (if 0 < rlocks p then Inl Blocked else Inr (grow_loop p (fst ct) (snd ct)))"

definition quickScaleUp :: "WorkPool \<Rightarrow> failure + WorkPool" where
  "quickScaleUp p =
     (case quickScaleUp_plan p of
        None \<Rightarrow> Inr p
      | Some ct \<Rightarrow> quickScaleUp_commit p ct)"

text \<open>\<open>updateMetrics\<close>; \<open>totalLoad\<close> is an \<open>int32\<close> sum over the slots of live workers.\<close>

definition totalLoad :: "WorkPool \<Rightarrow> 32 word" where
  "totalLoad p = sum_list (take (length (workers p)) (workerLoads p))"

definition updateMetrics :: "WorkPool \<Rightarrow> WorkPool" where
  "updateMetrics p =
     (let usage = float64_quot (int (length (chan_buf (taskQueue p))))
                    (int (chan_cap (taskQueue p)));
          idle = (if 0 < length (workers p)
                  then one_minus (float64_quot (sint (totalLoad p)) (int (length (workers p))))
                  else idleWorkers (metrics p))
      in p\<lparr>metrics := \<lparr>queueUsage = usage, idleWorkers = idle\<rparr>\<rparr>)"

text \<open>The two conditions of \<open>adjustWorkerCount\<close>.\<close>

definition grow_cond :: "WorkPool \<Rightarrow> bool" where
  "grow_cond p =
     (f64_greater (queueUsage (metrics p)) (adjustThreshold p)
      \<and> f64_less (idleWorkers (metrics p)) (Fin f64_0_2))"

definition shrink_cond :: "WorkPool \<Rightarrow> bool" where
  "shrink_cond p =
     (f64_less (queueUsage (metrics p)) (Fin f64_0_2)
      \<and> f64_greater (idleWorkers (metrics p)) (Fin f64_0_8))"

text \<open>
  The loop \<open>for i := cur - 1; i >= target; i--\<close> of the shrink, over the indices it
  visits: the worker at \<open>i\<close> is stopped, the slice is cut to \<open>[:i]\<close>, the counter is
  decremented. The load counters are not touched.
\<close>

fun shrink_loop :: "WorkPool \<Rightarrow> int list \<Rightarrow> failure + WorkPool" where
  "shrink_loop p [] = Inr p"
| "shrink_loop p (i # rest) =
     (if i < int (length (workers p))
      then (if i < 0 then Inl (Panic ''index out of range'')
            else shrink_loop
              (p\<lparr>retired := retired p @ [worker_stop (workers p ! nat i)],
                 workers := take (nat i) (workers p),
                 currentWorkers := currentWorkers p - 1\<rparr>) rest)
      else shrink_loop p rest)"

text \<open>
  \<open>adjustWorkerCount\<close> in two parts, as \<open>quickScaleUp\<close>: the counter is loaded and the
  clamped target computed without a lock; the lock is taken only for a change.
\<close>

definition adjustWorkerCount_plan :: "WorkPool \<Rightarrow> int \<times> int" where
  "adjustWorkerCount_plan p =
     (let cur = currentWorkers p;
          target = (if grow_cond p then scale_count f64_1_2 cur
                    else if shrink_cond p then scale_count f64_0_8 cur
                    else cur)
      in (cur, if target < minWorkers p then minWorkers p
               else if maxWorkers p < target then maxWorkers p
               else target))"

definition adjustWorkerCount_commit :: "WorkPool \<Rightarrow> int \<times> int \<Rightarrow> failure + WorkPool" where
  "adjustWorkerCount_commit p ct =
     (let cur = fst ct; target = snd ct in
      if target \<noteq> cur then
        (if 0 < rlocks p then Inl Blocked
         else if cur < target then Inr (grow_loop p cur target)
         else shrink_loop p (rev [target..cur - 1]))
      else Inr p)"

definition adjustWorkerCount :: "WorkPool \<Rightarrow> failure + WorkPool" where
  "adjustWorkerCount p = adjustWorkerCount_commit p (adjustWorkerCount_plan p)"

text \<open>One round of the loop of \<open>adjustWorkers\<close>, on a tick of the timer.\<close>

definition adjustWorkers_tick :: "WorkPool \<Rightarrow> failure + WorkPool" where
  "adjustWorkers_tick p = adjustWorkerCount (updateMetrics p)"

section \<open>Overload handling\<close>

text \<open>
  The loop \<open>for i, w := range p.workers\<close> of \<open>handleOverload\<close>: the index of the first
  worker that takes the task, with the worker afterwards.
\<close>

fun offer :: "worker list \<Rightarrow> Task \<Rightarrow> nat \<Rightarrow> (nat \<times> worker) option" where
  "offer [] t i = None"
| "offer (w # ws) t i =
     (case try_send w t of
        Some w' \<Rightarrow> Some (i, w')
      | None \<Rightarrow> offer ws t (Suc i))"

text \<open>
  \<open>go t.Run(context.Background())\<close>: the task itself, not a wrapper, runs in a goroutine
  of its own. Nothing recovers a panic there, and an unrecovered panic of any goroutine
  ends the process.
\<close>

definition go_Run :: "WorkPool \<Rightarrow> Task \<Rightarrow> failure + WorkPool" where
  "go_Run p t =
     (case Run t of
        Return e \<Rightarrow> Inr (p\<lparr>fallback := fallback p @ [t]\<rparr>)
      | Panicked r frames \<Rightarrow> Inl (Panic r))"

definition overload_trigger :: "WorkPool \<Rightarrow> bool" where
  "overload_trigger p = f64_greater (queueUsage (metrics p)) (adjustThreshold p)"

definition rescan :: "WorkPool \<Rightarrow> Task \<Rightarrow> failure + WorkPool" where
  "rescan p t =
     (case offer (workers p) t 0 of
        Some (i, w') \<Rightarrow> add_load (p\<lparr>workers := (workers p)[i := w']\<rparr>) i
      | None \<Rightarrow> go_Run p t)"

definition handleOverload :: "WorkPool \<Rightarrow> Task \<Rightarrow> failure + WorkPool" where
  "handleOverload p t =
     (case (if overload_trigger p then quickScaleUp p else Inr p) of
        Inl f \<Rightarrow> Inl f
      | Inr p' \<Rightarrow> rescan p' t)"

text \<open>
  The body of the loop of \<open>dispatch\<close> for one task \<open>t\<close> received from the queue. On a
  successful handoff the loop \<open>continue\<close>s from inside the \<open>select\<close>: the read lock
  taken before the handoff is still held.
\<close>

definition dispatch_task :: "WorkPool \<Rightarrow> Task \<Rightarrow> failure + WorkPool" where
  "dispatch_task p t =
     (let workerIndex = selectWorker p in
      if 0 \<le> workerIndex \<and> workerIndex < int (length (workers p)) then
        (case try_send (workers p ! nat workerIndex) t of
           Some w' \<Rightarrow>
             (case add_load (p\<lparr>workers := (workers p)[nat workerIndex := w']\<rparr>)
                     (nat workerIndex) of
                Inl f \<Rightarrow> Inl f
              | Inr p' \<Rightarrow> Inr (p'\<lparr>rlocks := rlocks p' + 1\<rparr>))
         | None \<Rightarrow> handleOverload p t)
      else handleOverload p t)"

text \<open>\<open>for t := range p.taskQueue\<close>, over the tasks in the order they are received.\<close>

fun dispatch_tasks :: "WorkPool \<Rightarrow> Task list \<Rightarrow> failure + WorkPool" where
  "dispatch_tasks p [] = Inr p"
| "dispatch_tasks p (t # ts) =
     (case dispatch_task p t of
        Inl f \<Rightarrow> Inl f
      | Inr p' \<Rightarrow> dispatch_tasks p' ts)"

text \<open>One round of the loop: the head of the buffered queue is received and handled.\<close>

definition dispatch_step :: "WorkPool \<Rightarrow> failure + WorkPool" where
  "dispatch_step p =
     (case chan_buf (taskQueue p) of
        [] \<Rightarrow> (if chan_closed (taskQueue p) then Inr p else Inl Blocked)
      | t # ts \<Rightarrow> dispatch_task (p\<lparr>taskQueue := (taskQueue p)\<lparr>chan_buf := ts\<rparr>\<rparr>) t)"

section \<open>Shutdown and submission\<close>

text \<open>\<open>WorkPool.stop\<close>: under the write lock, every worker is stopped and the queue closed.\<close>

definition stop :: "WorkPool \<Rightarrow> failure + WorkPool" where
  "stop p =
     (if 0 < rlocks p then Inl Blocked
      else if list_ex quit_closed (workers p) \<or> chan_closed (taskQueue p)
      then Inl (Panic ''close of closed channel'')
      else Inr (p\<lparr>workers := map worker_stop (workers p),
                  taskQueue := (taskQueue p)\<lparr>chan_closed := True\<rparr>\<rparr>))"

text \<open>
  Modelled from the spec: the operation \<open>Submit\<close> is not in the source, which has no
  method that sends to \<open>taskQueue\<close> and no state that records a shutdown other than the
  closed channel. The specification says that Submit "enqueues a Task", that "behavior on
  a full queue is to block the caller until space is available or the queue is closed",
  that Stop "closes the submission queue", and that "submission after shutdown must fail
  with an explicit rejection signal rather than faulting on a closed channel". So on a
  closed queue the caller gets the rejection, on an open queue with room the task is
  appended to the buffer, and on a full open queue the caller blocks (a submission to a
  queue of capacity zero is taken by the dispatcher directly, see \<open>handover\<close>).
\<close>

definition Submit :: "WorkPool \<Rightarrow> Task \<Rightarrow> failure + WorkPool" where
  "Submit p t =
     (let q = taskQueue p in
      if chan_closed q then Inl Rejected
      else if length (chan_buf q) < chan_cap q
      then Inr (p\<lparr>taskQueue := q\<lparr>chan_buf := chan_buf q @ [t]\<rparr>\<rparr>)
      else Inl Blocked)"

text \<open>
  Modelled from the spec: a submission that meets the dispatcher's receive on an open
  queue with an empty buffer, which is the only way a task passes a queue of capacity
  zero; the dispatcher then runs the body of its loop for the task. The source has no
  sender. After the shutdown the submission is rejected, as for \<open>Submit\<close>.
\<close>

definition handover :: "WorkPool \<Rightarrow> Task \<Rightarrow> failure + WorkPool" where
  "handover p t =
     (if chan_closed (taskQueue p) then Inl Rejected
      else if chan_buf (taskQueue p) = [] then dispatch_task p t
      else Inl Blocked)"

text \<open>The goroutine of the worker at index \<open>i\<close> reaches its \<open>select\<close>.\<close>

definition worker_ready :: "WorkPool \<Rightarrow> nat \<Rightarrow> WorkPool" where
  "worker_ready p i =
     (if i < length (workers p)
      then p\<lparr>workers := (workers p)[i := worker_parks (workers p ! i)]\<rparr>
      else p)"

section \<open>Runs of the pool\<close>

text \<open>Sequencing of operations that can fail: the first failure ends the run.\<close>

definition and_then :: "failure + 'a \<Rightarrow> ('a \<Rightarrow> failure + 'b) \<Rightarrow> failure + 'b" where
  "and_then r f = (case r of Inl e \<Rightarrow> Inl e | Inr x \<Rightarrow> f x)"

text \<open>
  The pool of the spec's scenario B, \<open>NewWorkPool(1, 5, 1)\<close>, after its worker has
  parked and has taken a first task from the dispatcher.
\<close>

definition busy_pool :: "failure + WorkPool" where
  "busy_pool =
     and_then (NewWorkPool 1 5 1)
       (\<lambda>p. dispatch_task (worker_ready p 0) (Task 1 (Return None)))"

text \<open>
  \<open>n\<close> rounds on a pool in which the worker at index 0 parks and the dispatcher then
  receives a task that returns \<open>nil\<close>; and the pool \<open>NewWorkPool(1, 1, 1)\<close> after \<open>n\<close> such
  rounds.
\<close>

fun direct_rounds :: "nat \<Rightarrow> WorkPool \<Rightarrow> failure + WorkPool" where
  "direct_rounds 0 p = Inr p"
| "direct_rounds (Suc n) p =
     and_then (direct_rounds n p)
       (\<lambda>q. dispatch_task (worker_ready q 0) (Task n (Return None)))"

definition one_worker_pool :: "nat \<Rightarrow> WorkPool" where
  "one_worker_pool n =
     \<lparr>minWorkers = 1, maxWorkers = 1, currentWorkers = 1,
      taskQueue = \<lparr>chan_buf = [], chan_cap = 1, chan_closed = False\<rparr>,
      workers = [\<lparr>wid = 0, waiting = False, quit_closed = False,
                  handled = map (\<lambda>k. (Task k (Return None), None)) [0..<n]\<rparr>],
      metrics = \<lparr>queueUsage = Fin 0, idleWorkers = Fin 0\<rparr>,
      workerLoads = [of_nat n],
      adjustThreshold = Fin f64_0_8,
      rlocks = n, fallback = [], retired = []\<rparr>"

text \<open>
  What "the first index attaining the minimum" means for a scan of \<open>ls\<close> whose head has
  index \<open>i\<close> and that stops at \<open>n\<close>: position \<open>k\<close> of \<open>ls\<close> is scanned, no scanned
  counter is smaller, and every counter scanned before it is larger.
\<close>

definition first_min :: "32 word list \<Rightarrow> nat \<Rightarrow> nat \<Rightarrow> nat \<Rightarrow> bool" where
  "first_min ls n i k \<longleftrightarrow>
     k < length ls \<and> i + k < n
     \<and> (\<forall>j<length ls. i + j < n \<longrightarrow> sint (ls ! k) \<le> sint (ls ! j))
     \<and> (\<forall>j<k. sint (ls ! k) < sint (ls ! j))"

section \<open>Operations as steps\<close>

text \<open>
  One load-counter step: nothing changes, or one counter receives \<open>atomic.AddInt32(.., 1)\<close>.
\<close>

definition loads_step :: "32 word list \<Rightarrow> 32 word list \<Rightarrow> bool" where
  "loads_step ls ls' \<longleftrightarrow> ls' = ls \<or> (\<exists>i<length ls. ls' = ls[i := ls ! i + 1])"

text \<open>
  The pieces of the pool's code that run without another goroutine of the pool in
  between: a submission, one round of the dispatcher (from the buffer or from a sender
  it meets), the overload handling and its re-scan when other pieces ran since the
  handoff failed, the locked part of either resize with whatever plan \<open>ct\<close> its caller
  computed before it got the lock, the metrics update, a worker's return to its
  \<open>select\<close>, and the shutdown. Every run of the pool is a sequence of such steps.
\<close>

inductive pool_op :: "WorkPool \<Rightarrow> WorkPool \<Rightarrow> bool" where
  op_submit: "Submit p t = Inr p' \<Longrightarrow> pool_op p p'"
| op_handover: "handover p t = Inr p' \<Longrightarrow> pool_op p p'"
| op_dispatch: "dispatch_step p = Inr p' \<Longrightarrow> pool_op p p'"
| op_overload: "handleOverload p t = Inr p' \<Longrightarrow> pool_op p p'"
| op_rescan: "rescan p t = Inr p' \<Longrightarrow> pool_op p p'"
| op_quick: "quickScaleUp_commit p ct = Inr p' \<Longrightarrow> pool_op p p'"
| op_adjust: "adjustWorkerCount_commit p ct = Inr p' \<Longrightarrow> pool_op p p'"
| op_metrics: "pool_op p (updateMetrics p)"
| op_parks: "pool_op p (worker_ready p i)"
| op_stop: "stop p = Inr p' \<Longrightarrow> pool_op p p'"

text \<open>What a resize leaves alone.\<close>

definition same_but_workers :: "WorkPool \<Rightarrow> WorkPool \<Rightarrow> bool" where
  "same_but_workers p p' \<longleftrightarrow>
     workerLoads p' = workerLoads p \<and> metrics p' = metrics p \<and> taskQueue p' = taskQueue p
     \<and> adjustThreshold p' = adjustThreshold p \<and> minWorkers p' = minWorkers p
     \<and> maxWorkers p' = maxWorkers p \<and> rlocks p' = rlocks p \<and> fallback p' = fallback p"

text \<open>
  A pool \<open>NewWorkPool(5, 6, 1)\<close> that grows to six workers, hands a task to the worker at
  index 5 in a re-scan, shrinks back to five workers and grows to six again.
\<close>

definition grown_pool :: "failure + WorkPool" where
  "grown_pool =
     and_then (NewWorkPool 5 6 1) (\<lambda>p.
     and_then (quickScaleUp_commit p (5, 6)) (\<lambda>p.
       Inr (worker_ready p 5)))"

definition loaded_pool :: "failure + WorkPool" where
  "loaded_pool = and_then grown_pool (\<lambda>p. rescan p (Task 0 (Return None)))"

definition shrunk_pool :: "failure + WorkPool" where
  "shrunk_pool = and_then loaded_pool (\<lambda>p. adjustWorkerCount_commit p (6, 5))"

definition regrown_pool :: "failure + WorkPool" where
  "regrown_pool = and_then shrunk_pool (\<lambda>p. quickScaleUp_commit p (5, 6))"

text \<open>What a task on its way through the dispatcher leaves alone.\<close>

definition same_settings :: "WorkPool \<Rightarrow> WorkPool \<Rightarrow> bool" where
  "same_settings p p' \<longleftrightarrow>
     taskQueue p' = taskQueue p \<and> metrics p' = metrics p
     \<and> adjustThreshold p' = adjustThreshold p \<and> minWorkers p' = minWorkers p
     \<and> maxWorkers p' = maxWorkers p"

text \<open>What every step keeps: the settings, a closed queue, the bound of the buffer; the
  metrics change only in \<open>updateMetrics\<close>.\<close>

definition step_keeps :: "WorkPool \<Rightarrow> WorkPool \<Rightarrow> bool" where
  "step_keeps p p' \<longleftrightarrow>
     chan_cap (taskQueue p') = chan_cap (taskQueue p)
     \<and> adjustThreshold p' = adjustThreshold p
     \<and> minWorkers p' = minWorkers p \<and> maxWorkers p' = maxWorkers p
     \<and> (chan_closed (taskQueue p) \<longrightarrow> chan_closed (taskQueue p'))
     \<and> (metrics p' = metrics p \<or> p' = updateMetrics p)
     \<and> length (chan_buf (taskQueue p'))
          \<le> max (chan_cap (taskQueue p)) (length (chan_buf (taskQueue p)))"

text \<open>
  A pool whose queue has capacity zero (its buffer is always empty), with the threshold
  of the constructor, whose occupancy metric is NaN or still the zero of the constructor.
\<close>

definition unbuffered :: "WorkPool \<Rightarrow> bool" where
  "unbuffered p \<longleftrightarrow>
     chan_cap (taskQueue p) = 0 \<and> chan_buf (taskQueue p) = []
     \<and> adjustThreshold p = Fin f64_0_8
     \<and> (queueUsage (metrics p) = NaN
          \<or> metrics p = \<lparr>queueUsage = Fin 0, idleWorkers = Fin 0\<rparr>)"

text \<open>The clamp of \<open>adjustWorkerCount\<close> to \<open>[minWorkers, maxWorkers]\<close>.\<close>

definition clamp_workers :: "WorkPool \<Rightarrow> int \<Rightarrow> int" where
  "clamp_workers p n =
     (if n < minWorkers p then minWorkers p else if maxWorkers p < n then maxWorkers p else n)"

section \<open>Targets, bounds and further runs\<close>

text \<open>
  The targets of the two resizes in integer arithmetic, for a count in the range of a
  non-negative \<open>int32\<close>.
\<close>

definition emergency_target :: "WorkPool \<Rightarrow> int" where
  "emergency_target p = min (maxWorkers p) ((6 * currentWorkers p) div 5)"

definition periodic_target :: "WorkPool \<Rightarrow> int" where
  "periodic_target p =
     clamp_workers p
       (if grow_cond p then (6 * currentWorkers p) div 5
        else if shrink_cond p then (4 * currentWorkers p) div 5
        else currentWorkers p)"

text \<open>
  The bounds of the worker count, with what the code relies on besides: a count that
  fits its \<open>int32\<close>, one entry of \<open>workers\<close> per counted worker and a load counter for
  every index up to \<open>maxWorkers\<close>.
\<close>

definition pool_inv :: "WorkPool \<Rightarrow> bool" where
  "pool_inv p \<longleftrightarrow>
     0 < minWorkers p \<and> minWorkers p \<le> currentWorkers p
     \<and> currentWorkers p \<le> maxWorkers p
     \<and> maxWorkers p < 2 ^ 31
     \<and> int (length (workers p)) = currentWorkers p
     \<and> length (workerLoads p) = nat (maxWorkers p)"

text \<open>
  \<open>n\<close> rounds in which the handoff to the preselected worker \<open>k\<close> fails because its
  goroutine has not reached the \<open>select\<close> yet, the worker parks, and the re-scan of
  \<open>handleOverload\<close> hands task \<open>k\<close> to it. No read lock stays held in such a round.
\<close>

fun late_rounds :: "nat \<Rightarrow> WorkPool \<Rightarrow> failure + WorkPool" where
  "late_rounds 0 p = Inr p"
| "late_rounds (Suc k) p =
     and_then (late_rounds k p)
       (\<lambda>q. handleOverload (worker_ready q k) (Task k (Return None)))"

text \<open>
  \<open>NewWorkPool(5, 6, 1)\<close> after five such rounds, a sixth task in the queue and a
  metrics update (\<open>race_tick\<close>); and after the dispatcher's receive of the sixth task
  (\<open>race_pool\<close>).
\<close>

definition race_tick :: "failure + WorkPool" where
  "race_tick =
     and_then (NewWorkPool 5 6 1) (\<lambda>p.
     and_then (late_rounds 5 p) (\<lambda>p.
     and_then (Submit p (Task 5 (Return None))) (\<lambda>p.
       Inr (updateMetrics p))))"

definition race_pool :: "failure + WorkPool" where
  "race_pool =
     and_then race_tick (\<lambda>p. Inr (p\<lparr>taskQueue := (taskQueue p)\<lparr>chan_buf := []\<rparr>\<rparr>))"

text \<open>
  \<open>NewWorkPool(5, 10, 1)\<close> after one task was handed to worker 0 by the dispatcher, a
  second task was queued and the metrics were updated.
\<close>

definition leaked_pool :: "failure + WorkPool" where
  "leaked_pool =
     and_then (NewWorkPool 5 10 1) (\<lambda>p.
     and_then (dispatch_task (worker_ready p 0) (Task 0 (Return None))) (\<lambda>p.
     and_then (Submit p (Task 1 (Return None))) (\<lambda>p.
       Inr (updateMetrics p))))"

text \<open>\<open>NewWorkPool(5, 10, 1)\<close> after five tasks went to worker 0, with a sixth in the queue.\<close>

definition served_pool :: "failure + WorkPool" where
  "served_pool =
     and_then (NewWorkPool 5 10 1) (\<lambda>p.
     and_then (direct_rounds 5 p) (\<lambda>p.
       Submit p (Task 5 (Return None))))"

text \<open>
  The occupancy of the queue at the moment of the call, as claim C3 words the trigger
  of the emergency scale-up: queue length divided by queue capacity.
\<close>

definition occupancy_now :: "WorkPool \<Rightarrow> float64" where
  "occupancy_now p =
     float64_quot (int (length (chan_buf (taskQueue p)))) (int (chan_cap (taskQueue p)))"

text \<open>\<open>NewWorkPool(5, 6, 1)\<close> with a task in its queue, before the first tick of the timer.\<close>

definition stale_pool :: "failure + WorkPool" where
  "stale_pool = and_then (NewWorkPool 5 6 1) (\<lambda>p. Submit p (Task 1 (Return None)))"

section \<open>Rounding to a double\<close>

lemma round_even_near:
  assumes "\<bar>r - of_int q\<bar> < 1 / 2"
  shows "round_even r = q"
proof (cases "of_int q \<le> r")
  case True
  with assms have f: "\<lfloor>r\<rfloor> = q" by (intro floor_unique) auto
  have "r - of_int q < 1 / 2" using assms True by auto
  then show ?thesis unfolding round_even_def Let_def f by simp
next
  case False
  with assms have f: "\<lfloor>r\<rfloor> = q - 1" by (intro floor_unique) auto
  have "1 / 2 < r - of_int (q - 1)" using assms False by auto
  then show ?thesis unfolding round_even_def Let_def f by simp
qed

lemma round_even_err: "\<bar>of_int (round_even r) - r\<bar> \<le> 1 / 2"
proof -
  define f where "f = \<lfloor>r\<rfloor>"
  have b: "of_int f \<le> r" "r < of_int f + 1" unfolding f_def by linarith+
  have "round_even r = f \<and> r - of_int f \<le> 1 / 2
      \<or> round_even r = f + 1 \<and> 1 / 2 \<le> r - of_int f"
    unfolding round_even_def Let_def f_def [symmetric] by auto
  with b show ?thesis by auto
qed

lemma bitlen_bounds_rat:
  assumes "0 < a"
  shows "2 powi (bitlen a - 1) \<le> (of_int a :: rat)" and "(of_int a :: rat) < 2 powi (bitlen a)"
proof -
  from bitlen_bounds [OF assms] have b: "2 ^ nat (bitlen a - 1) \<le> a" "a < 2 ^ nat (bitlen a)"
    by simp_all
  have p: "1 \<le> bitlen a" using assms bitlen_eq_zero_iff [of a] bitlen_nonneg [of a]
    by (cases "bitlen a = 0") auto
  have "(2::rat) powi (bitlen a - 1) = 2 ^ nat (bitlen a - 1)"
    using p by (simp add: power_int_def)
  also have "\<dots> = of_int (2 ^ nat (bitlen a - 1))" by simp
  also have "\<dots> \<le> of_int a" using b(1) by (simp only: of_int_le_iff)
  finally show "2 powi (bitlen a - 1) \<le> (of_int a :: rat)" .
  have "(of_int a :: rat) < of_int (2 ^ nat (bitlen a))" using b(2) by (simp only: of_int_less_iff)
  also have "\<dots> = 2 ^ nat (bitlen a)" by simp
  also have "\<dots> = (2::rat) powi (bitlen a)" using p by (simp add: power_int_def)
  finally show "(of_int a :: rat) < 2 powi (bitlen a)" .
qed

lemma ilog2_bounds:
  assumes "x \<noteq> 0"
  shows "2 powi (ilog2 x) \<le> \<bar>x\<bar>" and "\<bar>x\<bar> < 2 powi (ilog2 x + 1)"
proof -
  obtain a b where q: "quotient_of \<bar>x\<bar> = (a, b)" by (cases "quotient_of \<bar>x\<bar>")
  then have b: "0 < b" and x: "\<bar>x\<bar> = of_int a / of_int b"
    using quotient_of_denom_pos [OF q] quotient_of_div [OF q] by simp_all
  have "0 < \<bar>x\<bar>" using assms by simp
  then have "0 < (of_int a :: rat) / of_int b" by (simp only: x)
  then have a: "0 < a" using b by (simp add: zero_less_divide_iff)
  let ?d = "bitlen a - bitlen b"
  have up: "\<bar>x\<bar> < 2 powi (?d + 1)"
  proof -
    have "(of_int a :: rat) < 2 powi (bitlen a)" using a by (rule bitlen_bounds_rat)
    also have "\<dots> = 2 powi (?d + 1) * 2 powi (bitlen b - 1)"
      by (simp flip: power_int_add)
    also have "\<dots> \<le> 2 powi (?d + 1) * of_int b"
      using bitlen_bounds_rat(1) [OF b] by (intro mult_left_mono) simp_all
    finally show ?thesis using b by (simp add: x pos_divide_less_eq)
  qed
  have lo: "2 powi (?d - 1) \<le> \<bar>x\<bar>"
  proof -
    have "2 powi (?d - 1) * (of_int b :: rat) \<le> 2 powi (?d - 1) * 2 powi (bitlen b)"
      using bitlen_bounds_rat(2) [OF b] by (intro mult_left_mono) simp_all
    also have "\<dots> = 2 powi (bitlen a - 1)" by (simp flip: power_int_add)
    also have "\<dots> \<le> of_int a" using a by (rule bitlen_bounds_rat)
    finally show ?thesis using b by (simp add: x pos_le_divide_eq)
  qed
  show "2 powi (ilog2 x) \<le> \<bar>x\<bar>"
    using lo by (simp add: ilog2_def q Let_def)
  show "\<bar>x\<bar> < 2 powi (ilog2 x + 1)"
    using up by (auto simp: ilog2_def q Let_def not_le)
qed

lemma ilog2_less:
  assumes "x \<noteq> 0" and "\<bar>x\<bar> < 2 powi n"
  shows "ilog2 x < n"
proof (rule ccontr)
  assume "\<not> ilog2 x < n"
  then have "(2::rat) powi n \<le> 2 powi (ilog2 x)" by (intro power_int_increasing) simp_all
  with ilog2_bounds(1) [OF assms(1)] assms(2) show False by simp
qed

lemma ilog2_ge:
  assumes "x \<noteq> 0" and "2 powi n \<le> \<bar>x\<bar>"
  shows "n \<le> ilog2 x"
proof (rule ccontr)
  assume "\<not> n \<le> ilog2 x"
  then have "ilog2 x + 1 \<le> n" by simp
  then have "(2::rat) powi (ilog2 x + 1) \<le> 2 powi n" by (intro power_int_increasing) simp_all
  with ilog2_bounds(2) [OF assms(1)] assms(2) show False by simp
qed

lemma f64_round_near:
  assumes "x \<noteq> 0" and "\<bar>x - of_int q * 2 powi (ilog2 x - 52)\<bar> < 2 powi (ilog2 x - 52) / 2"
  shows "f64_round x = of_int q * 2 powi (ilog2 x - 52)"
proof -
  let ?s = "(2::rat) powi (ilog2 x - 52)"
  have s: "0 < ?s" by simp
  have "\<bar>x / ?s - of_int q\<bar> = \<bar>x - of_int q * ?s\<bar> / ?s"
    using s by (simp add: field_simps abs_divide)
  also have "\<dots> < 1 / 2" using assms(2) s by (simp add: field_simps)
  finally have "round_even (x / ?s) = q" by (rule round_even_near)
  then show ?thesis using assms(1) by (simp add: f64_round_def Let_def)
qed

lemma f64_round_err:
  assumes "x \<noteq> 0"
  shows "\<bar>f64_round x - x\<bar> \<le> 2 powi (ilog2 x - 52) / 2"
proof -
  let ?s = "(2::rat) powi (ilog2 x - 52)"
  have s: "0 < ?s" by simp
  have "\<bar>f64_round x - x\<bar> = \<bar>of_int (round_even (x / ?s)) - x / ?s\<bar> * ?s"
    using assms s by (simp add: f64_round_def Let_def field_simps abs_mult flip: abs_mult)
  also have "\<dots> \<le> 1 / 2 * ?s"
    using round_even_err [of "x / ?s"] s by (intro mult_right_mono) simp_all
  finally show ?thesis by simp
qed


lemma f64_1_2_eq: "f64_1_2 = 5404319552844595 / 4503599627370496"
  unfolding f64_1_2_def by code_simp

lemma f64_0_8_eq: "f64_0_8 = 3602879701896397 / 4503599627370496"
  unfolding f64_0_8_def by code_simp

lemma f64_0_2_eq: "f64_0_2 = 3602879701896397 / 18014398509481984"
  unfolding f64_0_2_def by code_simp

lemma pow2_scale:
  assumes "e \<le> 52"
  shows "of_int (2 ^ nat (52 - e)) * (2::rat) powi (e - 52) = 1"
proof -
  have a: "(of_int (2 ^ nat (52 - e)) :: rat) = 2 powi (52 - e)"
    using assms by (simp add: power_int_def)
  have "(2::rat) powi (52 - e) * 2 powi (e - 52) = 2 powi (52 - e + (e - 52))"
    by (rule power_int_add [symmetric]) simp
  also have "\<dots> = 1" by simp
  finally show ?thesis unfolding a .
qed

lemma f64_round_grid:
  assumes "x \<noteq> 0" and "ilog2 x \<le> 52"
    and "\<bar>x - of_int q\<bar> < 2 powi (ilog2 x - 52) / 2"
  shows "f64_round x = of_int q"
proof -
  let ?s = "(2::rat) powi (ilog2 x - 52)"
  let ?Q = "q * 2 ^ nat (52 - ilog2 x)"
  have "of_int ?Q * ?s = of_int q * (of_int (2 ^ nat (52 - ilog2 x)) * ?s)" by simp
  also have "\<dots> = of_int q" using pow2_scale [OF assms(2)] by simp
  finally have eq: "of_int ?Q * ?s = of_int q" .
  have "\<bar>x - of_int ?Q * ?s\<bar> < ?s / 2" using assms(3) unfolding eq .
  with assms(1) have "f64_round x = of_int ?Q * ?s" by (rule f64_round_near)
  then show ?thesis unfolding eq .
qed

lemma f64_round_of_int:
  assumes "\<bar>n\<bar> < 2 ^ 53"
  shows "f64_round (of_int n) = of_int n"
proof (cases "n = 0")
  case True
  then show ?thesis by (simp add: f64_round_def)
next
  case False
  let ?x = "of_int n :: rat"
  have x: "?x \<noteq> 0" using False by simp
  have "\<bar>?x\<bar> < 2 powi 53"
    using assms by (simp flip: of_int_abs add: of_int_less_numeral_power_cancel_iff)
  then have "ilog2 ?x < 53" using x by (intro ilog2_less)
  then have e: "ilog2 ?x \<le> 52" by simp
  show ?thesis using x e by (rule f64_round_grid) simp
qed


lemma half_ulp:
  "(2::rat) powi (e - 52) / 2 = 2 powi (e + 1) * (5 / 4) / (5 * 2 ^ 52)"
proof -
  have "(2::rat) powi (e - 52 + 53) = 2 powi (e - 52) * 2 powi 53"
    by (rule power_int_add) simp
  moreover have "e - 52 + 53 = e + 1" by simp
  ultimately have "(2::rat) powi (e + 1) = 2 powi (e - 52) * 2 ^ 53" by simp
  then show ?thesis by simp
qed

lemma go_int_between:
  assumes "of_int q < y" and "y < of_int q + 1" and "0 \<le> q"
  shows "go_int y = q"
proof -
  have "(0::rat) \<le> of_int q" using assms(3) by simp
  then have "0 \<le> y" using assms(1) by linarith
  moreover have "\<lfloor>y\<rfloor> = q" using assms(1,2) by (intro floor_unique) auto
  ultimately show ?thesis by (simp add: go_int_def)
qed

lemma scale_round:
  fixes n q r :: int and x d :: rat
  assumes n: "0 < n" "n < 2 ^ 31" and q: "0 \<le> q" and r: "0 \<le> r" "r < 5"
    and x: "x = of_int q + of_int r / 5 + d" and d: "\<bar>d\<bar> = of_int n / (5 * 2 ^ 52)"
    and lo: "of_int n * (4 / 5) \<le> x" and hi: "x < 2 ^ 32"
  shows "go_int (f64_round x) = q"
proof -
  have "0 < (of_int n :: rat) * (4 / 5)" using n(1) by simp
  then have xpos: "0 < x" using lo by linarith
  then have x0: "x \<noteq> 0" by simp
  have "\<bar>x\<bar> < 2 powi 32" using hi xpos by simp
  then have e: "ilog2 x < 32" using x0 by (intro ilog2_less)
  let ?s = "(2::rat) powi (ilog2 x - 52)"
  have dn: "\<bar>d\<bar> < 1 / 2 ^ 23"
  proof -
    have "(of_int n :: rat) < 2 ^ 31" using n(2) by (simp add: of_int_less_numeral_power_cancel_iff)
    then show ?thesis unfolding d by simp
  qed
  show ?thesis
  proof (cases "r = 0")
    case True
    have "of_int n * (4 / 5) \<le> \<bar>x\<bar>" using lo xpos by simp
    also have "\<dots> < 2 powi (ilog2 x + 1)" using x0 by (rule ilog2_bounds)
    finally have "(of_int n :: rat) < 2 powi (ilog2 x + 1) * (5 / 4)" by simp
    then have "(of_int n :: rat) / (5 * 2 ^ 52) < 2 powi (ilog2 x + 1) * (5 / 4) / (5 * 2 ^ 52)"
      by (intro divide_strict_right_mono) simp_all
    also have "\<dots> = ?s / 2" by (rule half_ulp [symmetric])
    finally have "\<bar>x - of_int q\<bar> < ?s / 2" using True x d by simp
    with x0 e have "f64_round x = of_int q" by (intro f64_round_grid) simp_all
    then show ?thesis using q by (simp add: go_int_def)
  next
    case False
    with r have r1: "1 \<le> r" "r \<le> 4" by simp_all
    have "?s \<le> 2 powi (- 21)" using e by (intro power_int_increasing) simp_all
    then have s: "?s / 2 \<le> 1 / 2 ^ 22" by (simp add: power_int_minus_divide)
    from f64_round_err [OF x0] s have err: "\<bar>f64_round x - x\<bar> \<le> 1 / 2 ^ 22" by linarith
    have "(1::rat) / 5 \<le> of_int r / 5" "(of_int r :: rat) / 5 \<le> 4 / 5"
      using r1 by simp_all
    with x dn err have "of_int q < f64_round x" "f64_round x < of_int q + 1"
      by (simp_all add: abs_if split: if_splits)
    then show ?thesis using q by (rule go_int_between)
  qed
qed


lemma scale_count_0: "scale_count k 0 = 0"
  by (simp add: scale_count_def f64_round_def go_int_def)

lemma scale_count_grow:
  assumes "0 \<le> n" and "n < 2 ^ 31"
  shows "scale_count f64_1_2 n = (6 * n) div 5"
proof (cases "n = 0")
  case True
  then show ?thesis by (simp add: scale_count_0)
next
  case False
  with assms have n: "0 < n" "n < 2 ^ 31" by simp_all
  define q r where "q = (6 * n) div 5" and "r = (6 * n) mod 5"
  have qr: "6 * n = 5 * q + r" "0 \<le> r" "r < 5" "0 \<le> q"
    using n(1) by (simp_all add: q_def r_def)
  have nr: "(of_int n :: rat) < 2 ^ 31" using n(2) by (simp add: of_int_less_numeral_power_cancel_iff)
  have "\<bar>n\<bar> < 2 ^ 53" using n by simp
  then have fn: "f64_round (of_int n) = of_int n" by (rule f64_round_of_int)
  let ?x = "(of_int n :: rat) * f64_1_2"
  let ?d = "- (of_int n :: rat) / (5 * 2 ^ 52)"
  have "(of_int (6 * n) :: rat) = of_int (5 * q + r)" using qr(1) by simp
  then have six: "(of_int n :: rat) * 6 = 5 * of_int q + of_int r" by simp
  have "?x = (of_int n * 6) / 5 + ?d" by (simp add: f64_1_2_eq)
  then have x: "?x = of_int q + of_int r / 5 + ?d" unfolding six by simp
  have d: "\<bar>?d\<bar> = of_int n / (5 * 2 ^ 52)" using n(1) by simp
  have lo: "of_int n * (4 / 5) \<le> ?x" using n(1) by (simp add: f64_1_2_eq)
  have hi: "?x < 2 ^ 32" using nr n(1) by (simp add: f64_1_2_eq)
  have "go_int (f64_round ?x) = q"
    using n qr(4,2,3) x d lo hi by (rule scale_round)
  then show ?thesis by (simp add: scale_count_def fn q_def)
qed

lemma scale_count_shrink:
  assumes "0 \<le> n" and "n < 2 ^ 31"
  shows "scale_count f64_0_8 n = (4 * n) div 5"
proof (cases "n = 0")
  case True
  then show ?thesis by (simp add: scale_count_0)
next
  case False
  with assms have n: "0 < n" "n < 2 ^ 31" by simp_all
  define q r where "q = (4 * n) div 5" and "r = (4 * n) mod 5"
  have qr: "4 * n = 5 * q + r" "0 \<le> r" "r < 5" "0 \<le> q"
    using n(1) by (simp_all add: q_def r_def)
  have nr: "(of_int n :: rat) < 2 ^ 31" using n(2) by (simp add: of_int_less_numeral_power_cancel_iff)
  have "\<bar>n\<bar> < 2 ^ 53" using n by simp
  then have fn: "f64_round (of_int n) = of_int n" by (rule f64_round_of_int)
  let ?x = "(of_int n :: rat) * f64_0_8"
  let ?d = "(of_int n :: rat) / (5 * 2 ^ 52)"
  have "(of_int (4 * n) :: rat) = of_int (5 * q + r)" using qr(1) by simp
  then have four: "(of_int n :: rat) * 4 = 5 * of_int q + of_int r" by simp
  have "?x = (of_int n * 4) / 5 + ?d" by (simp add: f64_0_8_eq)
  then have x: "?x = of_int q + of_int r / 5 + ?d" unfolding four by simp
  have d: "\<bar>?d\<bar> = of_int n / (5 * 2 ^ 52)" using n(1) by simp
  have lo: "of_int n * (4 / 5) \<le> ?x" using n(1) by (simp add: f64_0_8_eq)
  have hi: "?x < 2 ^ 32" using nr n(1) by (simp add: f64_0_8_eq)
  have "go_int (f64_round ?x) = q"
    using n qr(4,2,3) x d lo hi by (rule scale_round)
  then show ?thesis by (simp add: scale_count_def fn q_def)
qed

section \<open>The task wrapper: results\<close>

lemma length_runtime_Stack: "length (runtime_Stack n frames) \<le> n"
  by (simp add: runtime_Stack_def)

lemma runtime_Stack_nonempty: "0 < n \<Longrightarrow> runtime_Stack n frames \<noteq> []"
  by (cases n) (simp_all add: runtime_Stack_def goroutine_trace_def)

text \<open>
  Claim C5. For every task and every buffer size \<open>n\<close>: when \<open>Run\<close> returns, the wrapper
  returns the very error value (or \<open>nil\<close>) that \<open>Run\<close> returned; when \<open>Run\<close> panics with a
  value rendered as \<open>r\<close>, the wrapper returns one error that wraps the sentinel
  \<open>errTaskRunningPanic\<close>, whose text is the sentinel's text, the separator, and the report
  made of \<open>r\<close> and of the captured trace, and the captured trace is a prefix of the
  goroutine's trace of at most \<open>n\<close> bytes. The wrapper of the pool uses \<open>n = 2048\<close>.
\<close>

theorem taskWrapper_Run_contract:
  "(Run t = Return e \<longrightarrow> taskWrapper_Run_buf n t = e) \<and>
   (Run t = Panicked r frames \<longrightarrow>
      (\<exists>err buf. taskWrapper_Run_buf n t = Some err
         \<and> errors_Is err ErrTaskRunningPanic
         \<and> buf = take n (goroutine_trace frames) \<and> length buf \<le> n
         \<and> Error err = Error ErrTaskRunningPanic @ fullwidth_colon @ ''[PANIC]:''
              @ [char_of (9::nat)] @ r @ [char_of (10::nat)] @ buf @ [char_of (10::nat)])) \<and>
   taskWrapper_Run t = taskWrapper_Run_buf 2048 t"
  by (simp add: taskWrapper_Run_buf_def taskWrapper_Run_def panicBuffLen_def panic_error_def
      panic_report_def runtime_Stack_def)

theorem taskWrapper_Run_contract_witness:
  "taskWrapper_Run (Task 2 (Return (Some (ErrorString ''disk full''))))
     = Some (ErrorString ''disk full'') \<and>
   (\<exists>err. taskWrapper_Run (Task 1 (Panicked ''nil map'' ''main.f()'')) = Some err
      \<and> errors_Is err ErrTaskRunningPanic
      \<and> Error err = Error ErrTaskRunningPanic @ fullwidth_colon @ ''[PANIC]:''
              @ [char_of (9::nat)] @ ''nil map'' @ [char_of (10::nat)]
              @ ''goroutine main.f()'' @ [char_of (10::nat)])"
  using taskWrapper_Run_contract [of "Task 2 (Return (Some (ErrorString ''disk full'')))"
      "Some (ErrorString ''disk full'')" 2048 "''x''" "''y''"]
    taskWrapper_Run_contract [of "Task 1 (Panicked ''nil map'' ''main.f()'')"
      None 2048 "''nil map''" "''main.f()''"]
  by (simp add: goroutine_trace_def)

section \<open>Panics on the three routes of a task\<close>

lemma busy_pool_state:
  "busy_pool = Inr \<lparr>minWorkers = 1, maxWorkers = 5, currentWorkers = 1,
        taskQueue = \<lparr>chan_buf = [], chan_cap = 1, chan_closed = False\<rparr>,
        workers = [\<lparr>wid = 0, waiting = False, quit_closed = False,
                     handled = [(Task 1 (Return None), None)]\<rparr>],
        metrics = \<lparr>queueUsage = Fin 0, idleWorkers = Fin 0\<rparr>,
        workerLoads = [1, 0, 0, 0, 0],
        adjustThreshold = Fin f64_0_8,
        rlocks = 1, fallback = [], retired = []\<rparr>"
  by code_simp

text \<open>
  A worker that takes a panicking task (from the dispatcher or from the re-scan of
  \<open>handleOverload\<close>, both through \<open>try_send\<close>) logs the wrapper's error and is not stopped: its
  loop goes on.
\<close>

lemma worker_contains_panic:
  assumes "try_send w t = Some w'" and "Run t = Panicked r frames"
  shows "\<not> quit_closed w'"
    and "handled w' = handled w @ [(t, Some (panic_error r (runtime_Stack panicBuffLen frames)))]"
    and "waiting (worker_parks w')"
  using assms
  by (auto simp: try_send_def worker_parks_def taskWrapper_Run_def taskWrapper_Run_buf_def
      split: if_splits)

text \<open>
  Claim C1 (the route that breaks it). When no worker takes the task, \<open>handleOverload\<close>
  starts \<open>t.Run\<close> itself in a new goroutine, without the wrapper: a panic of the task is
  not recovered and ends the process, with the pool and all its workers.
\<close>

theorem handleOverload_fallback_panic:
  "Run t = Panicked r frames \<Longrightarrow>
   (if overload_trigger p then quickScaleUp p else Inr p) = Inr p' \<Longrightarrow>
   offer (workers p') t 0 = None \<Longrightarrow>
   handleOverload p t = Inl (Panic r)"
  by (simp add: handleOverload_def rescan_def go_Run_def)

theorem handleOverload_fallback_panic_witness:
  "\<exists>p. busy_pool = Inr p
     \<and> handleOverload p (Task 2 (Panicked ''nil map'' ''main.f()'')) = Inl (Panic ''nil map'')
     \<and> dispatch_task p (Task 2 (Panicked ''nil map'' ''main.f()'')) = Inl (Panic ''nil map'')"
  using handleOverload_fallback_panic [of "Task 2 (Panicked ''nil map'' ''main.f()'')"
      "''nil map''" "''main.f()''" "projr busy_pool" "projr busy_pool"]
  by (simp add: busy_pool_state overload_trigger_def f64_greater_def f64_0_8_eq try_send_def
      dispatch_task_def selectWorker_def MaxInt32_def word_sless_alt)

section \<open>Signed 32-bit counters\<close>

lemma sint_MaxInt32: "sint MaxInt32 = 2147483647"
  by (simp add: MaxInt32_def)

lemma sint_of_nat32: "n < 2147483648 \<Longrightarrow> sint (of_nat n :: 32 word) = int n"
  by (simp add: signed_of_nat signed_take_bit_int_eq_self)

lemma sless_MaxInt32_iff: "x <s MaxInt32 \<longleftrightarrow> x \<noteq> MaxInt32"
proof -
  have "sint x < 2147483648" using sint_lt [of x] by simp
  moreover have "sint x = sint MaxInt32 \<longleftrightarrow> x = MaxInt32"
    by (auto intro: signed_word_eqI)
  ultimately show ?thesis by (auto simp: word_sless_alt sint_MaxInt32)
qed

lemma sint_succ32:
  assumes "x \<noteq> MaxInt32"
  shows "sint (x + 1 :: 32 word) = sint x + 1"
proof -
  have "sint x < 2147483647"
    using assms sless_MaxInt32_iff [of x] by (simp add: word_sless_alt sint_MaxInt32)
  moreover have "- 2147483648 \<le> sint x" using sint_ge [of x] by simp
  ultimately show ?thesis
    by (simp add: sint_word_add signed_take_bit_int_eq_self)
qed

lemma sint_wrap32: "sint (MaxInt32 + 1) = - 2147483648"
  by (simp add: MaxInt32_def)

section \<open>Selection of the least loaded worker\<close>

lemma select_scan_none:
  "\<forall>k<length ls. i + k < n \<longrightarrow> \<not> ls ! k <s m \<Longrightarrow> select_scan ls n i m sel = sel"
proof (induction ls arbitrary: i m sel)
  case Nil
  then show ?case by simp
next
  case (Cons x xs)
  show ?case
  proof (cases "n \<le> i")
    case True
    then show ?thesis by simp
  next
    case False
    from Cons.prems have x: "\<not> x <s m" using False by (auto dest: spec [of _ 0])
    have "\<forall>k<length xs. Suc i + k < n \<longrightarrow> \<not> xs ! k <s m"
      using Cons.prems by (auto dest: spec [of _ "Suc k" for k])
    then have "select_scan xs n (Suc i) m sel = sel" by (rule Cons.IH)
    with x False show ?thesis by simp
  qed
qed

lemma first_min_Cons_head:
  assumes "i < n" and "\<forall>j<length xs. Suc i + j < n \<longrightarrow> sint x \<le> sint (xs ! j)"
  shows "first_min (x # xs) n i 0"
  using assms by (auto simp: first_min_def nth_Cons split: nat.splits)

lemma first_min_Cons_tail:
  assumes "first_min xs n (Suc i) k" and "sint (xs ! k) < sint x"
  shows "first_min (x # xs) n i (Suc k)"
  using assms by (auto simp: first_min_def nth_Cons less_Suc_eq_0_disj split: nat.splits)

lemma select_scan_some:
  "\<exists>k<length ls. i + k < n \<and> ls ! k <s m \<Longrightarrow>
   \<exists>k. first_min ls n i k \<and> select_scan ls n i m sel = int (i + k) \<and> ls ! k <s m"
proof (induction ls arbitrary: i m sel)
  case Nil
  then show ?case by simp
next
  case (Cons x xs)
  from Cons.prems have i: "i < n" by auto
  show ?case
  proof (cases "x <s m")
    case True
    show ?thesis
    proof (cases "\<exists>k<length xs. Suc i + k < n \<and> xs ! k <s x")
      case True
      from Cons.IH [OF True, of "int i"] obtain k where
        k: "first_min xs n (Suc i) k" "select_scan xs n (Suc i) x (int i) = int (Suc i + k)"
          "xs ! k <s x" by blast
      have "first_min (x # xs) n i (Suc k)"
        using k(1,3) by (intro first_min_Cons_tail) (simp_all add: word_sless_alt)
      moreover have "select_scan (x # xs) n i m sel = int (i + Suc k)"
        using k(2) i \<open>x <s m\<close> by simp
      moreover have "(x # xs) ! Suc k <s m"
        using k(3) \<open>x <s m\<close> by (simp add: word_sless_alt)
      ultimately show ?thesis by blast
    next
      case False
      then have none: "\<forall>k<length xs. Suc i + k < n \<longrightarrow> \<not> xs ! k <s x" by blast
      have "select_scan xs n (Suc i) x (int i) = int i"
        using none by (rule select_scan_none)
      then have "select_scan (x # xs) n i m sel = int (i + 0)"
        using i True by simp
      moreover have "first_min (x # xs) n i 0"
        using i none by (intro first_min_Cons_head) (auto simp: word_sless_alt not_less)
      ultimately show ?thesis using True by (intro exI [of _ 0]) simp
    qed
  next
    case False
    from Cons.prems obtain k0 where
      k0: "k0 < length (x # xs)" "i + k0 < n" "(x # xs) ! k0 <s m"
      by blast
    with False obtain k1 where k1: "k0 = Suc k1" by (cases k0) auto
    with k0 have "\<exists>k<length xs. Suc i + k < n \<and> xs ! k <s m" by auto
    from Cons.IH [OF this, of sel] obtain k where
      k: "first_min xs n (Suc i) k" "select_scan xs n (Suc i) m sel = int (Suc i + k)"
        "xs ! k <s m" by blast
    have "sint (xs ! k) < sint x" using k(3) False by (simp add: word_sless_alt)
    then have "first_min (x # xs) n i (Suc k)"
      using k(1) by (intro first_min_Cons_tail)
    moreover have "select_scan (x # xs) n i m sel = int (i + Suc k)"
      using k(2) i False by simp
    ultimately show ?thesis using k(3) by (intro exI [of _ "Suc k"]) simp
  qed
qed

text \<open>
  As long as one live worker's counter is below the largest \<open>int32\<close>, \<open>selectWorker\<close>
  returns the first index that attains the minimum of the live counters.
\<close>

lemma selectWorker_first_min:
  assumes "\<exists>k<length (workerLoads p). k < length (workers p) \<and> workerLoads p ! k \<noteq> MaxInt32"
  shows "\<exists>k. first_min (workerLoads p) (length (workers p)) 0 k \<and> selectWorker p = int k"
proof -
  from assms have ne: "length (workers p) \<noteq> 0" by auto
  from assms have
    "\<exists>k<length (workerLoads p). 0 + k < length (workers p) \<and> workerLoads p ! k <s MaxInt32"
    by (simp add: sless_MaxInt32_iff)
  from select_scan_some [OF this, of "- 1"] ne show ?thesis
    by (auto simp: selectWorker_def)
qed

text \<open>When every live counter holds the largest \<open>int32\<close>, no worker is selected.\<close>

lemma selectWorker_saturated:
  assumes "\<forall>k<length (workerLoads p). k < length (workers p) \<longrightarrow> workerLoads p ! k = MaxInt32"
  shows "selectWorker p = - 1"
proof -
  from assms have
    "\<forall>k<length (workerLoads p). 0 + k < length (workers p) \<longrightarrow> \<not> workerLoads p ! k <s MaxInt32"
    by (simp add: sless_MaxInt32_iff)
  then have "select_scan (workerLoads p) (length (workers p)) 0 MaxInt32 (- 1) = - 1"
    by (rule select_scan_none)
  then show ?thesis by (simp add: selectWorker_def)
qed

text \<open>
  The two ways of the loop body of \<open>dispatch\<close> once a worker \<open>k\<close> is selected: if the worker
  takes the task, its counter and only its counter is incremented and the loop goes to the
  next task (with the read lock still held); if not, \<open>handleOverload\<close> is called with no
  second selection.
\<close>

lemma dispatch_task_handoff:
  assumes "selectWorker p = int k" and "k < length (workers p)" and "k < length (workerLoads p)"
    and "try_send (workers p ! k) t = Some w'"
  shows "dispatch_task p t =
    Inr (p\<lparr>workers := (workers p)[k := w'],
           workerLoads := (workerLoads p)[k := workerLoads p ! k + 1],
           rlocks := rlocks p + 1\<rparr>)"
  using assms by (simp add: dispatch_task_def add_load_def)

lemma dispatch_task_busy:
  assumes "selectWorker p = int k" and "try_send (workers p ! k) t = None"
  shows "dispatch_task p t = handleOverload p t"
  using assms by (simp add: dispatch_task_def Let_def)

lemma dispatch_task_unselected:
  assumes "selectWorker p = - 1"
  shows "dispatch_task p t = handleOverload p t"
  using assms by (simp add: dispatch_task_def)

lemma dispatch_tasks_next:
  "dispatch_task p t = Inr p' \<Longrightarrow> dispatch_tasks p (t # ts) = dispatch_tasks p' ts"
  by simp

section \<open>A pool with one worker, task after task\<close>

lemma NewWorkPool_1_1_1: "NewWorkPool 1 1 1 = Inr (one_worker_pool 0)"
  by (simp add: NewWorkPool_def one_worker_pool_def newWorker_def)

lemma one_worker_round:
  assumes "n < 2147483647"
  shows "dispatch_task (worker_ready (one_worker_pool n) 0) (Task n (Return None))
           = Inr (one_worker_pool (Suc n))"
proof -
  have "sint (of_nat n :: 32 word) = int n" using assms by (simp add: sint_of_nat32)
  then have "(of_nat n :: 32 word) <s MaxInt32"
    using assms by (simp add: word_sless_alt sint_MaxInt32)
  then show ?thesis
    by (simp add: dispatch_task_def selectWorker_def worker_ready_def one_worker_pool_def
        worker_parks_def try_send_def add_load_def taskWrapper_Run_def taskWrapper_Run_buf_def)
qed

lemma direct_rounds_one_worker:
  "n \<le> 2147483647 \<Longrightarrow> direct_rounds n (one_worker_pool 0) = Inr (one_worker_pool n)"
proof (induction n)
  case 0
  show ?case by simp
next
  case (Suc n)
  then have "direct_rounds n (one_worker_pool 0) = Inr (one_worker_pool n)" by simp
  moreover have "n < 2147483647" using Suc.prems by simp
  ultimately show ?case by (simp add: and_then_def one_worker_round)
qed

text \<open>
  Claim C6 (where the code departs from it). In the pool \<open>NewWorkPool(1, 1, 1)\<close>, after
  2147483647 tasks have been handed to the worker one after the other, the worker's
  counter holds the largest \<open>int32\<close>. The scan starts from \<open>minLoad = MaxInt32\<close> and
  compares with \<open><\<close>, so for the next task it selects no worker (\<open>-1\<close>) although the worker
  at index 0 is parked and holds the minimum: the dispatcher makes no handoff attempt and
  goes to \<open>handleOverload\<close>.
\<close>

theorem selectWorker_misses_saturated_worker:
  "NewWorkPool 1 1 1 = Inr (one_worker_pool 0)
   \<and> direct_rounds 2147483647 (one_worker_pool 0) = Inr (one_worker_pool 2147483647)
   \<and> workerLoads (one_worker_pool 2147483647) = [MaxInt32]
   \<and> waiting (workers (worker_ready (one_worker_pool 2147483647) 0) ! 0)
   \<and> selectWorker (worker_ready (one_worker_pool 2147483647) 0) = - 1
   \<and> dispatch_task (worker_ready (one_worker_pool 2147483647) 0) t
       = handleOverload (worker_ready (one_worker_pool 2147483647) 0) t"
proof -
  have sel: "selectWorker (worker_ready (one_worker_pool 2147483647) 0) = - 1"
    by (simp add: selectWorker_def worker_ready_def one_worker_pool_def MaxInt32_def)
  have "waiting (workers (worker_ready (one_worker_pool 2147483647) 0) ! 0)"
    by (simp add: worker_ready_def one_worker_pool_def worker_parks_def)
  moreover have "workerLoads (one_worker_pool 2147483647) = [MaxInt32]"
    by (simp add: one_worker_pool_def MaxInt32_def)
  ultimately show ?thesis
    using sel NewWorkPool_1_1_1 direct_rounds_one_worker [of 2147483647]
    by (simp add: dispatch_task_unselected)
qed

section \<open>The load counters\<close>

lemma same_but_workers_refl: "same_but_workers p p"
  by (simp add: same_but_workers_def)

lemma foldl_start_worker_frame: "same_but_workers p (foldl start_worker p is)"
  by (induction "is" arbitrary: p) (auto simp: same_but_workers_def start_worker_def)

lemma grow_loop_frame: "same_but_workers p (grow_loop p a b)"
  by (simp add: grow_loop_def foldl_start_worker_frame)

lemma shrink_loop_frame: "shrink_loop p is = Inr p' \<Longrightarrow> same_but_workers p p'"
proof (induction p "is" rule: shrink_loop.induct)
  case (1 p)
  then show ?case by (simp add: same_but_workers_def)
next
  case (2 p i rest)
  then show ?case
    by (auto simp: same_but_workers_def split: if_splits)
qed

lemma quickScaleUp_commit_frame: "quickScaleUp_commit p ct = Inr p' \<Longrightarrow> same_but_workers p p'"
  by (auto simp: quickScaleUp_commit_def grow_loop_frame split: if_splits)

lemma quickScaleUp_frame: "quickScaleUp p = Inr p' \<Longrightarrow> same_but_workers p p'"
  by (auto simp: quickScaleUp_def quickScaleUp_commit_frame same_but_workers_refl split: option.splits)

lemma adjustWorkerCount_commit_frame:
  "adjustWorkerCount_commit p ct = Inr p' \<Longrightarrow> same_but_workers p p'"
  by (auto simp: adjustWorkerCount_commit_def Let_def grow_loop_frame shrink_loop_frame
      same_but_workers_refl split: if_splits)

lemma loads_step_same: "ls' = ls \<Longrightarrow> loads_step ls ls'"
  by (simp add: loads_step_def)

lemma add_load_step: "add_load p i = Inr p' \<Longrightarrow> loads_step (workerLoads p) (workerLoads p')"
  by (auto simp: add_load_def loads_step_def split: if_splits)

lemma rescan_loads:
  assumes "rescan p t = Inr p'"
  shows "loads_step (workerLoads p) (workerLoads p')"
proof (cases "offer (workers p) t 0")
  case None
  with assms show ?thesis
    by (auto simp: rescan_def go_Run_def intro!: loads_step_same split: run_result.splits)
next
  case (Some iw)
  obtain i w' where iw: "iw = (i, w')" by (cases iw)
  with Some assms have "add_load (p\<lparr>workers := (workers p)[i := w']\<rparr>) i = Inr p'"
    by (simp add: rescan_def)
  from add_load_step [OF this] show ?thesis by simp
qed

lemma handleOverload_loads:
  assumes "handleOverload p t = Inr p'"
  shows "loads_step (workerLoads p) (workerLoads p')"
proof -
  from assms obtain p1 where
    p1: "(if overload_trigger p then quickScaleUp p else Inr p) = Inr p1" "rescan p1 t = Inr p'"
    by (auto simp: handleOverload_def split: sum.splits)
  from p1(1) have "workerLoads p1 = workerLoads p"
    by (auto simp: same_but_workers_def dest!: quickScaleUp_frame split: if_splits)
  with rescan_loads [OF p1(2)] show ?thesis by simp
qed

lemma dispatch_task_loads:
  assumes "dispatch_task p t = Inr p'"
  shows "loads_step (workerLoads p) (workerLoads p')"
proof (cases "handleOverload p t = Inr p'")
  case True
  then show ?thesis by (rule handleOverload_loads)
next
  case False
  with assms obtain k w' p1 where
    "add_load (p\<lparr>workers := (workers p)[k := w']\<rparr>) k = Inr p1" "p' = p1\<lparr>rlocks := rlocks p1 + 1\<rparr>"
    by (auto simp: dispatch_task_def Let_def split: if_splits option.splits sum.splits)
  with add_load_step [OF this(1)] show ?thesis by simp
qed

lemma dispatch_step_loads:
  assumes "dispatch_step p = Inr p'"
  shows "loads_step (workerLoads p) (workerLoads p')"
proof (cases "chan_buf (taskQueue p)")
  case Nil
  with assms show ?thesis
    by (auto simp: dispatch_step_def intro!: loads_step_same split: if_splits)
next
  case (Cons t ts)
  with assms have "dispatch_task (p\<lparr>taskQueue := (taskQueue p)\<lparr>chan_buf := ts\<rparr>\<rparr>) t = Inr p'"
    by (simp add: dispatch_step_def)
  from dispatch_task_loads [OF this] show ?thesis by simp
qed

lemma pool_op_loads:
  "pool_op p p' \<Longrightarrow> loads_step (workerLoads p) (workerLoads p')"
proof (induction rule: pool_op.induct)
  case (op_submit p t p')
  then show ?case by (auto simp: Submit_def Let_def intro!: loads_step_same split: if_splits)
next
  case (op_handover p t p')
  then show ?case by (auto simp: handover_def dest: dispatch_task_loads split: if_splits)
next
  case (op_dispatch p p')
  then show ?case by (rule dispatch_step_loads)
next
  case (op_overload p t p')
  then show ?case by (rule handleOverload_loads)
next
  case (op_rescan p t p')
  then show ?case by (rule rescan_loads)
next
  case (op_quick p ct p')
  then show ?case
    by (auto simp: same_but_workers_def intro!: loads_step_same dest!: quickScaleUp_commit_frame)
next
  case (op_adjust p ct p')
  then show ?case
    by (auto simp: same_but_workers_def intro!: loads_step_same
        dest!: adjustWorkerCount_commit_frame)
next
  case (op_metrics p)
  then show ?case by (simp add: updateMetrics_def Let_def loads_step_def)
next
  case (op_parks p i)
  then show ?case by (simp add: worker_ready_def loads_step_def)
next
  case (op_stop p p')
  then show ?case by (auto simp: stop_def intro!: loads_step_same split: if_splits)
qed


lemma sint_loads_step:
  assumes "loads_step ls ls'" and "i < length ls" and "ls ! i \<noteq> MaxInt32"
  shows "sint (ls ! i) \<le> sint (ls' ! i)"
  using assms sint_succ32 [of "ls ! i"]
  by (auto simp: loads_step_def nth_list_update)

text \<open>
  Claim C9, as the code has it. Every step of the pool leaves the load counters alone
  or adds one to exactly one of them with \<open>int32\<close> arithmetic, so a counter that is not
  at the largest \<open>int32\<close> does not decrease in a step; the locked parts of a shrink and of
  a scale-up do not write the counters at all, so a counter survives the removal of its
  worker and is the counter of the next worker created at that index.
\<close>

theorem workerLoads_lifetime:
  "(pool_op p p' \<longrightarrow>
      loads_step (workerLoads p) (workerLoads p')
      \<and> (\<forall>i<length (workerLoads p). workerLoads p ! i \<noteq> MaxInt32 \<longrightarrow>
            sint (workerLoads p ! i) \<le> sint (workerLoads p' ! i)))
   \<and> (adjustWorkerCount_commit s ct = Inr q \<longrightarrow> workerLoads q = workerLoads s)
   \<and> (quickScaleUp_commit q ct' = Inr r \<longrightarrow> workerLoads r = workerLoads q)"
  using pool_op_loads [of p p'] sint_loads_step [of "workerLoads p" "workerLoads p'"]
    adjustWorkerCount_commit_frame [of s ct q] quickScaleUp_commit_frame [of q ct' r]
  by (auto simp: same_but_workers_def)

theorem workerLoads_lifetime_witness:
  "\<exists>p p' q r. grown_pool = Inr p \<and> loaded_pool = Inr p' \<and> pool_op p p'
     \<and> workerLoads p = [0, 0, 0, 0, 0, 0] \<and> workerLoads p' = [0, 0, 0, 0, 0, 1]
     \<and> loads_step (workerLoads p) (workerLoads p')
     \<and> adjustWorkerCount_commit p' (6, 5) = Inr q \<and> length (workers q) = 5
     \<and> workerLoads q = [0, 0, 0, 0, 0, 1]
     \<and> quickScaleUp_commit q (5, 6) = Inr r \<and> workerLoads r = [0, 0, 0, 0, 0, 1]
     \<and> handled (workers r ! 5) = [] \<and> sint (totalLoad r) = 1"
proof -
  have g: "grown_pool = Inr (projr grown_pool)" by code_simp
  have l: "loaded_pool = Inr (projr loaded_pool)" by code_simp
  have "rescan (projr grown_pool) (Task 0 (Return None)) = Inr (projr loaded_pool)"
    by code_simp
  then have step: "pool_op (projr grown_pool) (projr loaded_pool)" by (rule op_rescan)
  have s: "adjustWorkerCount_commit (projr loaded_pool) (6, 5) = Inr (projr shrunk_pool)"
    by code_simp
  have r: "quickScaleUp_commit (projr shrunk_pool) (5, 6) = Inr (projr regrown_pool)"
    by code_simp
  have ls: "workerLoads (projr grown_pool) = [0, 0, 0, 0, 0, 0]"
    "workerLoads (projr loaded_pool) = [0, 0, 0, 0, 0, 1]"
    "length (workers (projr shrunk_pool)) = 5"
    "handled (workers (projr regrown_pool) ! 5) = []"
    "sint (totalLoad (projr regrown_pool)) = 1"
    by code_simp+
  from workerLoads_lifetime [of "projr grown_pool" "projr loaded_pool" "projr loaded_pool"
      "(6, 5)" "projr shrunk_pool" "(5, 6)" "projr regrown_pool"] step s r
  have kept: "loads_step (workerLoads (projr grown_pool)) (workerLoads (projr loaded_pool))"
    "workerLoads (projr shrunk_pool) = workerLoads (projr loaded_pool)"
    "workerLoads (projr regrown_pool) = workerLoads (projr shrunk_pool)"
    by simp_all
  have q: "workerLoads (projr shrunk_pool) = [0, 0, 0, 0, 0, 1]"
    and r': "workerLoads (projr regrown_pool) = [0, 0, 0, 0, 0, 1]"
    using kept(2,3) ls(2) by simp_all
  from g l step ls(1,2) kept(1) s ls(3) q r r' ls(4,5) show ?thesis by blast
qed

text \<open>
  Claim C9 as stated fails at the largest \<open>int32\<close>: in the pool \<open>NewWorkPool(1, 1, 1)\<close>
  after 2147483647 tasks the counter is 2147483647; the next task reaches the worker
  through the re-scan and the increment wraps the counter to -2147483648.
\<close>

theorem load_counter_wraps:
  "\<exists>p p'. direct_rounds 2147483647 (one_worker_pool 0) = Inr p
     \<and> handover (worker_ready p 0) (Task 0 (Return None)) = Inr p'
     \<and> pool_op (worker_ready p 0) p'
     \<and> sint (workerLoads (worker_ready p 0) ! 0) = 2147483647
     \<and> sint (workerLoads p' ! 0) = - 2147483648"
proof -
  let ?p = "one_worker_pool 2147483647"
  let ?p' = "(worker_ready ?p 0)\<lparr>workers := [\<lparr>wid = 0, waiting = False, quit_closed = False,
       handled = handled (workers ?p ! 0) @ [(Task 0 (Return None), None)]\<rparr>],
       workerLoads := [MaxInt32 + 1]\<rparr>"
  have sel: "selectWorker (worker_ready ?p 0) = - 1"
    by (simp add: selectWorker_def worker_ready_def one_worker_pool_def MaxInt32_def)
  have "handleOverload (worker_ready ?p 0) (Task 0 (Return None)) = Inr ?p'"
    by (simp add: handleOverload_def overload_trigger_def f64_greater_def f64_0_8_eq rescan_def
        worker_ready_def one_worker_pool_def worker_parks_def try_send_def add_load_def
        taskWrapper_Run_def taskWrapper_Run_buf_def MaxInt32_def)
  then have h: "handover (worker_ready ?p 0) (Task 0 (Return None)) = Inr ?p'"
    using sel by (simp add: handover_def dispatch_task_unselected worker_ready_def
        one_worker_pool_def)
  then have op: "pool_op (worker_ready ?p 0) ?p'" by (rule op_handover)
  have before: "sint (workerLoads (worker_ready ?p 0) ! 0) = 2147483647"
    by (simp add: worker_ready_def one_worker_pool_def)
  have after: "sint (workerLoads ?p' ! 0) = - 2147483648"
    by (simp add: sint_wrap32)
  have reach: "direct_rounds 2147483647 (one_worker_pool 0) = Inr ?p"
    using direct_rounds_one_worker [of 2147483647] by simp
  from reach h op before after show ?thesis by blast
qed

section \<open>Settings and the queue along a run\<close>

lemma same_but_workers_settings: "same_but_workers p p' \<Longrightarrow> same_settings p p'"
  by (simp add: same_but_workers_def same_settings_def)

lemma same_settings_trans: "same_settings p q \<Longrightarrow> same_settings q r \<Longrightarrow> same_settings p r"
  by (simp add: same_settings_def)

lemma add_load_settings: "add_load p i = Inr p' \<Longrightarrow> same_settings p p'"
  by (auto simp: add_load_def same_settings_def split: if_splits)

lemma rescan_settings:
  assumes "rescan p t = Inr p'"
  shows "same_settings p p'"
proof (cases "offer (workers p) t 0")
  case None
  with assms show ?thesis
    by (auto simp: rescan_def go_Run_def same_settings_def split: run_result.splits)
next
  case (Some iw)
  obtain i w' where iw: "iw = (i, w')" by (cases iw)
  with Some assms have "add_load (p\<lparr>workers := (workers p)[i := w']\<rparr>) i = Inr p'"
    by (simp add: rescan_def)
  from add_load_settings [OF this] show ?thesis by (simp add: same_settings_def)
qed

lemma handleOverload_settings:
  assumes "handleOverload p t = Inr p'"
  shows "same_settings p p'"
proof -
  from assms obtain p1 where
    p1: "(if overload_trigger p then quickScaleUp p else Inr p) = Inr p1" "rescan p1 t = Inr p'"
    by (auto simp: handleOverload_def split: sum.splits)
  from p1(1) have "same_settings p p1"
    by (auto simp: same_settings_def dest!: quickScaleUp_frame same_but_workers_settings
        split: if_splits)
  then show ?thesis using rescan_settings [OF p1(2)] by (rule same_settings_trans)
qed

lemma dispatch_task_settings:
  assumes "dispatch_task p t = Inr p'"
  shows "same_settings p p'"
proof (cases "handleOverload p t = Inr p'")
  case True
  then show ?thesis by (rule handleOverload_settings)
next
  case False
  with assms obtain k w' p1 where
    "add_load (p\<lparr>workers := (workers p)[k := w']\<rparr>) k = Inr p1" "p' = p1\<lparr>rlocks := rlocks p1 + 1\<rparr>"
    by (auto simp: dispatch_task_def Let_def split: if_splits option.splits sum.splits)
  with add_load_settings [OF this(1)] show ?thesis by (simp add: same_settings_def)
qed


lemma same_settings_keeps: "same_settings p p' \<Longrightarrow> step_keeps p p'"
  by (simp add: same_settings_def step_keeps_def)

lemma dispatch_step_keeps:
  assumes "dispatch_step p = Inr p'"
  shows "step_keeps p p'"
proof (cases "chan_buf (taskQueue p)")
  case Nil
  with assms show ?thesis
    by (auto simp: dispatch_step_def step_keeps_def split: if_splits)
next
  case (Cons t ts)
  with assms have "dispatch_task (p\<lparr>taskQueue := (taskQueue p)\<lparr>chan_buf := ts\<rparr>\<rparr>) t = Inr p'"
    by (simp add: dispatch_step_def)
  from dispatch_task_settings [OF this] Cons show ?thesis
    by (simp add: same_settings_def step_keeps_def)
qed

lemma pool_op_keeps:
  assumes "pool_op p p'"
  shows "step_keeps p p'"
  using assms
proof (cases rule: pool_op.cases)
  case (op_submit t)
  then show ?thesis by (auto simp: Submit_def Let_def step_keeps_def split: if_splits)
next
  case (op_handover t)
  then show ?thesis
    by (auto simp: handover_def intro!: same_settings_keeps dest: dispatch_task_settings
        split: if_splits)
next
  case op_dispatch
  then show ?thesis by (rule dispatch_step_keeps)
next
  case (op_overload t)
  then show ?thesis by (intro same_settings_keeps handleOverload_settings)
next
  case (op_rescan t)
  then show ?thesis by (intro same_settings_keeps rescan_settings)
next
  case (op_quick ct)
  then show ?thesis
    by (intro same_settings_keeps same_but_workers_settings quickScaleUp_commit_frame)
next
  case (op_adjust ct)
  then show ?thesis
    by (intro same_settings_keeps same_but_workers_settings adjustWorkerCount_commit_frame)
next
  case op_metrics
  then show ?thesis by (simp add: step_keeps_def updateMetrics_def Let_def)
next
  case (op_parks i)
  then show ?thesis by (simp add: step_keeps_def worker_ready_def)
next
  case op_stop
  then show ?thesis by (auto simp: stop_def step_keeps_def split: if_splits)
qed

lemma rtranclp_pool_op_closed:
  "rtranclp pool_op p q \<Longrightarrow> chan_closed (taskQueue p) \<Longrightarrow> chan_closed (taskQueue q)"
  by (induction rule: rtranclp_induct) (auto dest: pool_op_keeps simp: step_keeps_def)

lemma stop_closes: "stop p = Inr p' \<Longrightarrow> chan_closed (taskQueue p')"
  by (auto simp: stop_def split: if_splits)

section \<open>Shutdown\<close>

lemma offer_stopped: "offer (map worker_stop ws) t n = None"
  by (induction ws arbitrary: n) (simp_all add: try_send_def worker_stop_def)

lemma stop_workers: "stop p = Inr p' \<Longrightarrow> workers p' = map worker_stop (workers p)"
  by (auto simp: stop_def split: if_splits)

text \<open>
  Claim C2. Once \<open>stop\<close> has returned, the queue is closed and stays closed whatever the
  pool does afterwards, so every later submission of a task is answered by the rejection:
  it does not block and does not panic. The submission yields no new state of the pool,
  so the task enters neither the queue nor the dispatcher and reaches no worker; and none
  of the workers that \<open>stop\<close> has stopped takes a task any more. The submission is the
  one the specification describes; \<open>stop\<close> and the steps of the pool are the source's.
\<close>

theorem submit_after_stop:
  "stop p = Inr p' \<Longrightarrow> rtranclp pool_op p' q \<Longrightarrow>
   chan_closed (taskQueue q)
   \<and> Submit q t = Inl Rejected
   \<and> handover q t = Inl Rejected
   \<and> (\<forall>q'. \<not> Submit q t = Inr q' \<and> \<not> handover q t = Inr q')
   \<and> offer (workers p') t 0 = None"
  using rtranclp_pool_op_closed [of p' q] stop_closes [of p p'] stop_workers [of p p']
  by (simp add: Submit_def handover_def offer_stopped)

theorem submit_after_stop_witness:
  "\<exists>p p'. NewWorkPool 1 1 1 = Inr p \<and> stop p = Inr p' \<and> rtranclp pool_op p' (updateMetrics p')
     \<and> chan_closed (taskQueue (updateMetrics p'))
     \<and> Submit (updateMetrics p') (Task 0 (Return None)) = Inl Rejected
     \<and> handover (updateMetrics p') (Task 0 (Return None)) = Inl Rejected
     \<and> offer (workers p') (Task 0 (Return None)) 0 = None"
proof -
  have s: "stop (one_worker_pool 0) = Inr (projr (stop (one_worker_pool 0)))"
    by code_simp
  have r: "rtranclp pool_op (projr (stop (one_worker_pool 0)))
      (updateMetrics (projr (stop (one_worker_pool 0))))"
    by (rule r_into_rtranclp) (rule op_metrics)
  from submit_after_stop [OF s r, of "Task 0 (Return None)"] NewWorkPool_1_1_1 s r
  show ?thesis by blast
qed


section \<open>A queue of capacity zero\<close>

lemma NewWorkPool_unbuffered: "NewWorkPool mn mx 0 = Inr p \<Longrightarrow> unbuffered p"
  by (auto simp: NewWorkPool_def unbuffered_def split: if_splits)

lemma updateMetrics_unbuffered:
  "chan_cap (taskQueue p) = 0 \<Longrightarrow> chan_buf (taskQueue p) = [] \<Longrightarrow>
   queueUsage (metrics (updateMetrics p)) = NaN"
  by (simp add: updateMetrics_def Let_def float64_quot_def)

lemma pool_op_unbuffered:
  assumes "pool_op p p'" and "unbuffered p"
  shows "unbuffered p'"
proof -
  from assms(1) have k: "step_keeps p p'" by (rule pool_op_keeps)
  from assms(2) have c: "chan_cap (taskQueue p) = 0" "chan_buf (taskQueue p) = []"
    by (simp_all add: unbuffered_def)
  from k c have "chan_cap (taskQueue p') = 0" "chan_buf (taskQueue p') = []"
    by (simp_all add: step_keeps_def)
  moreover from k assms(2) have "adjustThreshold p' = Fin f64_0_8"
    by (simp add: step_keeps_def unbuffered_def)
  moreover from k have "metrics p' = metrics p \<or> p' = updateMetrics p"
    by (simp add: step_keeps_def)
  then have "queueUsage (metrics p') = NaN
      \<or> metrics p' = \<lparr>queueUsage = Fin 0, idleWorkers = Fin 0\<rparr>"
    using assms(2) updateMetrics_unbuffered [OF c] by (auto simp: unbuffered_def)
  ultimately show ?thesis by (simp add: unbuffered_def)
qed

lemma rtranclp_pool_op_unbuffered:
  "rtranclp pool_op p q \<Longrightarrow> unbuffered p \<Longrightarrow> unbuffered q"
  by (induction rule: rtranclp_induct) (auto intro: pool_op_unbuffered)

lemma unbuffered_quiet:
  assumes "unbuffered p"
  shows "\<not> overload_trigger p" and "\<not> grow_cond p" and "\<not> shrink_cond p"
  using assms
  by (auto simp: unbuffered_def overload_trigger_def grow_cond_def shrink_cond_def
      f64_greater_def f64_0_8_eq)

lemma NaN_unordered:
  "\<not> f64_less NaN x \<and> \<not> f64_less x NaN \<and> \<not> f64_greater NaN x \<and> \<not> f64_greater x NaN"
  by (cases x) (simp_all add: f64_greater_def)

text \<open>
  Claim C10. In every state that a pool constructed with queue capacity 0 reaches,
  \<open>updateMetrics\<close> computes the occupancy \<open>0 / 0 = NaN\<close>; the trigger of the emergency
  scale-up is false there and after the update, so \<open>handleOverload\<close> goes to the re-scan
  without \<open>quickScaleUp\<close>; and after the update neither the grow nor the shrink condition
  of \<open>adjustWorkerCount\<close> holds, so its target is the current count (clamped).
\<close>

theorem zero_capacity_never_triggers:
  "NewWorkPool mn mx 0 = Inr p0 \<Longrightarrow> rtranclp pool_op p0 p \<Longrightarrow>
   queueUsage (metrics (updateMetrics p)) = NaN
   \<and> \<not> overload_trigger p \<and> \<not> overload_trigger (updateMetrics p)
   \<and> handleOverload p t = rescan p t
   \<and> \<not> grow_cond (updateMetrics p) \<and> \<not> shrink_cond (updateMetrics p)
   \<and> adjustWorkerCount_plan (updateMetrics p)
       = (currentWorkers p, clamp_workers p (currentWorkers p))"
proof -
  assume new: "NewWorkPool mn mx 0 = Inr p0" and run: "rtranclp pool_op p0 p"
  from new have "unbuffered p0" by (rule NewWorkPool_unbuffered)
  with run have u: "unbuffered p" by (rule rtranclp_pool_op_unbuffered)
  have "pool_op p (updateMetrics p)" by (rule op_metrics)
  then have u': "unbuffered (updateMetrics p)" using u by (rule pool_op_unbuffered)
  from u have nan: "queueUsage (metrics (updateMetrics p)) = NaN"
    by (simp add: unbuffered_def updateMetrics_unbuffered)
  have quiet: "\<not> overload_trigger p" "\<not> overload_trigger (updateMetrics p)"
    "\<not> grow_cond (updateMetrics p)" "\<not> shrink_cond (updateMetrics p)"
    using unbuffered_quiet [OF u] unbuffered_quiet [OF u'] by simp_all
  have "handleOverload p t = rescan p t"
    using quiet(1) by (simp add: handleOverload_def)
  moreover have "adjustWorkerCount_plan (updateMetrics p)
       = (currentWorkers p, clamp_workers p (currentWorkers p))"
    using quiet(3,4)
    by (simp add: adjustWorkerCount_plan_def clamp_workers_def Let_def updateMetrics_def)
  ultimately show ?thesis using nan quiet by simp
qed

theorem zero_capacity_never_triggers_witness:
  "\<exists>p0 p. NewWorkPool 1 2 0 = Inr p0 \<and> rtranclp pool_op p0 p
     \<and> workerLoads p = [1, 0]
     \<and> queueUsage (metrics (updateMetrics p)) = NaN
     \<and> \<not> overload_trigger p \<and> \<not> overload_trigger (updateMetrics p)
     \<and> \<not> grow_cond (updateMetrics p) \<and> \<not> shrink_cond (updateMetrics p)
     \<and> adjustWorkerCount_plan (updateMetrics p) = (1, 1)
     \<and> adjustWorkers_tick p = Inr (updateMetrics p)"
proof -
  let ?new = "projr (NewWorkPool 1 2 0)"
  let ?run = "projr (handover (worker_ready ?new 0) (Task 0 (Return None)))"
  have new: "NewWorkPool 1 2 0 = Inr ?new" by code_simp
  have "handover (worker_ready ?new 0) (Task 0 (Return None)) = Inr ?run" by code_simp
  then have "pool_op (worker_ready ?new 0) ?run" by (rule op_handover)
  moreover have "pool_op ?new (worker_ready ?new 0)" by (rule op_parks)
  ultimately have run: "rtranclp pool_op ?new ?run" by (meson r_into_rtranclp rtranclp_trans)
  have facts: "workerLoads ?run = [1, 0]" "currentWorkers ?run = 1"
    "clamp_workers ?run 1 = 1" "adjustWorkers_tick ?run = Inr (updateMetrics ?run)"
    by code_simp+
  from zero_capacity_never_triggers [OF new run] facts new run show ?thesis
    by (intro exI [of _ ?new] exI [of _ ?run]) simp
qed

section \<open>The two resizes\<close>

lemma foldl_start_worker:
  "foldl start_worker p is =
     p\<lparr>workers := workers p @ map newWorker is,
       currentWorkers := currentWorkers p + int (length is)\<rparr>"
  by (induction "is" arbitrary: p) (simp_all add: start_worker_def)

lemma grow_loop_eq:
  "grow_loop p a b =
     p\<lparr>workers := workers p @ map newWorker [a..b - 1],
       currentWorkers := currentWorkers p + int (nat (b - a))\<rparr>"
  by (simp add: grow_loop_def foldl_start_worker)

lemma quickScaleUp_effect:
  assumes "rlocks p = 0" and "0 \<le> currentWorkers p" and "currentWorkers p < 2 ^ 31"
  shows "currentWorkers p \<le> emergency_target p \<or> maxWorkers p \<le> currentWorkers p"
    and "quickScaleUp p =
      Inr (if maxWorkers p \<le> currentWorkers p then p
           else p\<lparr>workers := workers p
                     @ map newWorker [currentWorkers p..emergency_target p - 1],
                   currentWorkers := emergency_target p\<rparr>)"
proof -
  have le: "currentWorkers p \<le> (6 * currentWorkers p) div 5" using assms(2) by simp
  then show "currentWorkers p \<le> emergency_target p \<or> maxWorkers p \<le> currentWorkers p"
    by (auto simp: emergency_target_def)
  show "quickScaleUp p =
      Inr (if maxWorkers p \<le> currentWorkers p then p
           else p\<lparr>workers := workers p
                     @ map newWorker [currentWorkers p..emergency_target p - 1],
                   currentWorkers := emergency_target p\<rparr>)"
  proof (cases "maxWorkers p \<le> currentWorkers p")
    case True
    then show ?thesis by (simp add: quickScaleUp_def quickScaleUp_plan_def)
  next
    case False
    then have t: "currentWorkers p \<le> emergency_target p"
      using le by (simp add: emergency_target_def)
    have "quickScaleUp_plan p = Some (currentWorkers p, emergency_target p)"
      using False assms(2,3)
      by (auto simp: quickScaleUp_plan_def Let_def scale_count_grow emergency_target_def)
    then show ?thesis
      using False assms(1) t
      by (simp add: quickScaleUp_def quickScaleUp_commit_def grow_loop_eq)
  qed
qed


lemma rev_upto_step: "t \<le> c - 1 \<Longrightarrow> rev [t..c - 1] = (c - 1) # rev [t..c - 1 - 1]"
  by (simp add: upto_rec2 [of t "c - 1"])

lemma shrink_loop_eq:
  assumes "int (length (workers p)) = c" and "0 \<le> t" and "t \<le> c"
  shows "shrink_loop p (rev [t..c - 1]) =
     Inr (p\<lparr>retired := retired p @ map worker_stop (rev (drop (nat t) (workers p))),
            workers := take (nat t) (workers p),
            currentWorkers := currentWorkers p - (c - t)\<rparr>)"
  using assms
proof (induction "nat (c - t)" arbitrary: p c)
  case 0
  then have "c = t" by simp
  with 0 show ?case by simp
next
  case (Suc n)
  then have lt: "t \<le> c - 1" by linarith
  let ?ws = "workers p"
  let ?p1 = "p\<lparr>retired := retired p @ [worker_stop (?ws ! nat (c - 1))],
               workers := take (nat (c - 1)) ?ws,
               currentWorkers := currentWorkers p - 1\<rparr>"
  have len1: "int (length (workers ?p1)) = c - 1" using Suc.prems lt by simp
  have n: "n = nat (c - 1 - t)" using Suc.hyps(2) by linarith
  have ih: "shrink_loop ?p1 (rev [t..c - 1 - 1]) =
     Inr (?p1\<lparr>retired := retired ?p1 @ map worker_stop (rev (drop (nat t) (workers ?p1))),
            workers := take (nat t) (workers ?p1),
            currentWorkers := currentWorkers ?p1 - (c - 1 - t)\<rparr>)"
    using Suc.hyps(1) [OF n len1 Suc.prems(2)] lt by simp
  have split: "drop (nat t) ?ws = drop (nat t) (take (nat (c - 1)) ?ws) @ [?ws ! nat (c - 1)]"
  proof -
    have "length ?ws = Suc (nat (c - 1))" using Suc.prems lt by linarith
    then have "?ws = take (nat (c - 1)) ?ws @ [?ws ! nat (c - 1)]"
      by (metis lessI take_Suc_conv_app_nth take_all_iff order_refl)
    then have "drop (nat t) ?ws = drop (nat t) (take (nat (c - 1)) ?ws @ [?ws ! nat (c - 1)])"
      by simp
    also have "\<dots> = drop (nat t) (take (nat (c - 1)) ?ws) @ [?ws ! nat (c - 1)]"
      using lt Suc.prems by (simp add: min_def nat_le_iff)
    finally show ?thesis .
  qed
  have tk: "take (nat t) (take (nat (c - 1)) ?ws) = take (nat t) ?ws"
    using lt Suc.prems(2) by (simp add: min_def)
  have "shrink_loop p (rev [t..c - 1]) = shrink_loop ?p1 (rev [t..c - 1 - 1])"
    using lt Suc.prems(1,2) by (simp add: rev_upto_step)
  also note ih
  finally show ?case using split tk by simp
qed



lemma adjustWorkerCount_plan_eq:
  "0 \<le> currentWorkers p \<Longrightarrow> currentWorkers p < 2 ^ 31 \<Longrightarrow>
   adjustWorkerCount_plan p = (currentWorkers p, periodic_target p)"
  by (simp add: adjustWorkerCount_plan_def periodic_target_def clamp_workers_def Let_def
      scale_count_grow scale_count_shrink)

lemma periodic_target_bounds:
  assumes "minWorkers p \<le> maxWorkers p"
  shows "minWorkers p \<le> periodic_target p" and "periodic_target p \<le> maxWorkers p"
  using assms by (auto simp: periodic_target_def clamp_workers_def)

lemma adjustWorkerCount_effect:
  assumes "rlocks p = 0" and "0 \<le> minWorkers p" and "minWorkers p \<le> maxWorkers p"
    and "int (length (workers p)) = currentWorkers p" and "currentWorkers p < 2 ^ 31"
  shows "adjustWorkerCount p =
     Inr (if currentWorkers p \<le> periodic_target p
          then p\<lparr>workers := workers p
                    @ map newWorker [currentWorkers p..periodic_target p - 1],
                  currentWorkers := periodic_target p\<rparr>
          else p\<lparr>retired := retired p
                    @ map worker_stop (rev (drop (nat (periodic_target p)) (workers p))),
                  workers := take (nat (periodic_target p)) (workers p),
                  currentWorkers := periodic_target p\<rparr>)"
proof -
  let ?c = "currentWorkers p" and ?t = "periodic_target p"
  have c0: "0 \<le> ?c" using assms(4) by linarith
  have t0: "0 \<le> ?t" using periodic_target_bounds(1) [OF assms(3)] assms(2) by simp
  have plan: "adjustWorkerCount_plan p = (?c, ?t)"
    using c0 assms(5) by (rule adjustWorkerCount_plan_eq)
  consider "?t = ?c" | "?c < ?t" | "?t < ?c" by linarith
  then show ?thesis
  proof cases
    case 1
    then show ?thesis
      by (simp add: adjustWorkerCount_def plan adjustWorkerCount_commit_def Let_def)
  next
    case 2
    then show ?thesis
      using assms(1)
      by (simp add: adjustWorkerCount_def plan adjustWorkerCount_commit_def grow_loop_eq Let_def)
  next
    case 3
    then have "shrink_loop p (rev [?t..?c - 1]) =
      Inr (p\<lparr>retired := retired p @ map worker_stop (rev (drop (nat ?t) (workers p))),
            workers := take (nat ?t) (workers p),
            currentWorkers := ?c - (?c - ?t)\<rparr>)"
      using shrink_loop_eq [OF assms(4) t0] by simp
    then show ?thesis
      using 3 assms(1)
      by (simp add: adjustWorkerCount_def plan adjustWorkerCount_commit_def Let_def)
  qed
qed


section \<open>The bounds of the worker count\<close>

text \<open>
  Each operation of the pool, run from its beginning to its end with no other resize in
  between, keeps \<open>minWorkers \<le> currentWorkers \<le> maxWorkers\<close>.
\<close>

lemma NewWorkPool_inv:
  assumes "NewWorkPool mn mx qs = Inr p" and "0 < mn" and "mn \<le> mx" and "mx < 2 ^ 31"
  shows "pool_inv p" and "currentWorkers p = mn" and "minWorkers p = mn" and "maxWorkers p = mx"
  using assms by (auto simp: NewWorkPool_def pool_inv_def split: if_splits)

lemma quickScaleUp_inv:
  assumes "quickScaleUp p = Inr p'" and "pool_inv p"
  shows "pool_inv p'"
proof (cases "rlocks p = 0")
  case True
  have c0: "0 \<le> currentWorkers p" using assms(2) by (simp add: pool_inv_def)
  have "emergency_target p \<le> maxWorkers p" by (simp add: emergency_target_def)
  moreover have "currentWorkers p \<le> (6 * currentWorkers p) div 5" using c0 by simp
  then have "currentWorkers p \<le> emergency_target p"
    using assms(2) by (simp add: emergency_target_def pool_inv_def)
  ultimately show ?thesis
    using assms quickScaleUp_effect(2) [OF True c0]
    by (auto simp: pool_inv_def split: if_splits)
next
  case False
  with assms show ?thesis
    by (auto simp: quickScaleUp_def quickScaleUp_commit_def split: option.splits)
qed

lemma adjustWorkerCount_inv:
  assumes "adjustWorkerCount p = Inr p'" and "pool_inv p"
  shows "pool_inv p'"
proof (cases "rlocks p = 0")
  case True
  have a: "0 \<le> minWorkers p" "minWorkers p \<le> maxWorkers p"
    "int (length (workers p)) = currentWorkers p"
    using assms(2) by (simp_all add: pool_inv_def)
  have b: "minWorkers p \<le> periodic_target p" "periodic_target p \<le> maxWorkers p"
    using periodic_target_bounds [OF a(2)] by simp_all
  show ?thesis
    using assms adjustWorkerCount_effect [OF True a] b
    by (auto simp: pool_inv_def split: if_splits)
next
  case False
  have c0: "0 \<le> currentWorkers p" using assms(2) by (simp add: pool_inv_def)
  from False assms show ?thesis
    by (auto simp: adjustWorkerCount_def adjustWorkerCount_plan_eq [OF c0]
        adjustWorkerCount_commit_def Let_def split: if_splits)
qed


lemma add_load_inv: "add_load p i = Inr p' \<Longrightarrow> pool_inv p \<Longrightarrow> pool_inv p'"
  by (auto simp: add_load_def pool_inv_def split: if_splits)

lemma rescan_inv:
  assumes "rescan p t = Inr p'" and "pool_inv p"
  shows "pool_inv p'"
proof (cases "offer (workers p) t 0")
  case None
  with assms show ?thesis
    by (auto simp: rescan_def go_Run_def pool_inv_def split: run_result.splits)
next
  case (Some iw)
  obtain i w' where iw: "iw = (i, w')" by (cases iw)
  with Some assms have "add_load (p\<lparr>workers := (workers p)[i := w']\<rparr>) i = Inr p'"
    by (simp add: rescan_def)
  moreover have "pool_inv (p\<lparr>workers := (workers p)[i := w']\<rparr>)"
    using assms(2) by (simp add: pool_inv_def)
  ultimately show ?thesis by (rule add_load_inv)
qed

lemma handleOverload_inv:
  assumes "handleOverload p t = Inr p'" and "pool_inv p"
  shows "pool_inv p'"
proof -
  from assms obtain p1 where
    p1: "(if overload_trigger p then quickScaleUp p else Inr p) = Inr p1" "rescan p1 t = Inr p'"
    by (auto simp: handleOverload_def split: sum.splits)
  from p1(1) assms(2) have "pool_inv p1"
    by (auto dest: quickScaleUp_inv split: if_splits)
  with p1(2) show ?thesis by (rule rescan_inv)
qed

lemma dispatch_task_inv:
  assumes "dispatch_task p t = Inr p'" and "pool_inv p"
  shows "pool_inv p'"
proof (cases "handleOverload p t = Inr p'")
  case True
  then show ?thesis using assms(2) by (rule handleOverload_inv)
next
  case False
  with assms obtain k w' p1 where
    "add_load (p\<lparr>workers := (workers p)[k := w']\<rparr>) k = Inr p1" "p' = p1\<lparr>rlocks := rlocks p1 + 1\<rparr>"
    by (auto simp: dispatch_task_def Let_def split: if_splits option.splits sum.splits)
  moreover have "pool_inv (p\<lparr>workers := (workers p)[k := w']\<rparr>)"
    using assms(2) by (simp add: pool_inv_def)
  ultimately show ?thesis using add_load_inv by (fastforce simp: pool_inv_def)
qed

lemma adjustWorkers_tick_inv:
  assumes "adjustWorkers_tick p = Inr p'" and "pool_inv p"
  shows "pool_inv p'"
proof -
  have "pool_inv (updateMetrics p)"
    using assms(2) by (simp add: pool_inv_def updateMetrics_def Let_def)
  with assms(1) show ?thesis
    unfolding adjustWorkers_tick_def by (rule adjustWorkerCount_inv)
qed








text \<open>
  In the rounds of \<open>late_rounds\<close> the dispatcher does select worker \<open>k\<close> for task \<open>k\<close>
  and the handoff does fail, so that \<open>dispatch\<close> calls \<open>handleOverload\<close>; and on the state
  \<open>race_tick\<close> the dispatcher receives the queued task and calls \<open>handleOverload\<close> on
  \<open>race_pool\<close>.
\<close>

lemma late_rounds_failed_handoffs:
  "selectWorker (projr (late_rounds 0 (projr (NewWorkPool 5 6 1)))) = 0
   \<and> selectWorker (projr (late_rounds 1 (projr (NewWorkPool 5 6 1)))) = 1
   \<and> selectWorker (projr (late_rounds 2 (projr (NewWorkPool 5 6 1)))) = 2
   \<and> selectWorker (projr (late_rounds 3 (projr (NewWorkPool 5 6 1)))) = 3
   \<and> selectWorker (projr (late_rounds 4 (projr (NewWorkPool 5 6 1)))) = 4
   \<and> list_all (\<lambda>k. dispatch_task (projr (late_rounds k (projr (NewWorkPool 5 6 1))))
                      (Task k (Return None))
                  = handleOverload (projr (late_rounds k (projr (NewWorkPool 5 6 1))))
                      (Task k (Return None))) [0, 1, 2, 3, 4]
   \<and> dispatch_step (projr race_tick) = handleOverload (projr race_pool) (Task 5 (Return None))"
  by code_simp

text \<open>
  Claim C4 (where the code departs from it). Both resizes load \<open>currentWorkers\<close> and
  compute their target before they take the write lock, and run their loop with these
  numbers once they have it. In \<open>NewWorkPool(5, 6, 1)\<close> with five loaded workers and a
  recorded occupancy of 1, the dispatcher (in \<open>handleOverload\<close>) and the periodic controller
  both plan a growth from 5 to 6; the controller's loop runs first and starts worker 5, then
  the dispatcher's loop runs with its stale plan and starts another worker: the count is 7,
  above \<open>maxWorkers = 6\<close>. There is no load counter for the seventh worker: a task handed to
  it in a re-scan panics with an index out of range.
\<close>

theorem resize_race_exceeds_max:
  "\<exists>s p q r. race_tick = Inr s \<and> race_pool = Inr p
     \<and> dispatch_step s = handleOverload p (Task 5 (Return None))
     \<and> pool_inv p \<and> overload_trigger p
     \<and> quickScaleUp_plan p = Some (5, 6) \<and> adjustWorkerCount_plan p = (5, 6)
     \<and> adjustWorkerCount_commit p (5, 6) = Inr q \<and> pool_inv q \<and> currentWorkers q = 6
     \<and> quickScaleUp_commit q (5, 6) = Inr r
     \<and> currentWorkers r = 7 \<and> maxWorkers r = 6 \<and> \<not> pool_inv r
     \<and> length (workers r) = 7 \<and> length (workerLoads r) = 6
     \<and> rescan (worker_ready r 6) (Task 5 (Return None)) = Inl (Panic ''index out of range'')"
proof -
  let ?s = "projr race_tick"
  let ?a = "projr race_pool"
  let ?b = "projr (adjustWorkerCount_commit ?a (5, 6))"
  let ?c = "projr (quickScaleUp_commit ?b (5, 6))"
  have "race_tick = Inr ?s" "race_pool = Inr ?a"
    "dispatch_step ?s = handleOverload ?a (Task 5 (Return None))"
    "pool_inv ?a" "overload_trigger ?a"
    "quickScaleUp_plan ?a = Some (5, 6)" "adjustWorkerCount_plan ?a = (5, 6)"
    "adjustWorkerCount_commit ?a (5, 6) = Inr ?b" "pool_inv ?b" "currentWorkers ?b = 6"
    "quickScaleUp_commit ?b (5, 6) = Inr ?c"
    "currentWorkers ?c = 7" "maxWorkers ?c = 6" "\<not> pool_inv ?c"
    "length (workers ?c) = 7" "length (workerLoads ?c) = 6"
    "rescan (worker_ready ?c 6) (Task 5 (Return None)) = Inl (Panic ''index out of range'')"
    by code_simp+
  then show ?thesis by blast
qed

section \<open>The read lock of the dispatcher\<close>

text \<open>
  \<open>dispatch\<close> takes the read lock before the handoff and releases it after the
  \<open>select\<close>; the \<open>continue\<close> of the successful case skips the release. No operation
  releases a lock it did not take, so the count of held read locks never goes down, and
  from the first direct handoff on \<open>mu.Lock()\<close> never returns.
\<close>

lemma add_load_rlocks: "add_load p i = Inr p' \<Longrightarrow> rlocks p' = rlocks p"
  by (auto simp: add_load_def split: if_splits)

lemma rescan_rlocks:
  assumes "rescan p t = Inr p'"
  shows "rlocks p' = rlocks p"
proof (cases "offer (workers p) t 0")
  case None
  with assms show ?thesis
    by (auto simp: rescan_def go_Run_def split: run_result.splits)
next
  case (Some iw)
  obtain i w' where iw: "iw = (i, w')" by (cases iw)
  with Some assms have "add_load (p\<lparr>workers := (workers p)[i := w']\<rparr>) i = Inr p'"
    by (simp add: rescan_def)
  from add_load_rlocks [OF this] show ?thesis by simp
qed

lemma handleOverload_rlocks:
  assumes "handleOverload p t = Inr p'"
  shows "rlocks p' = rlocks p"
proof -
  from assms obtain p1 where
    p1: "(if overload_trigger p then quickScaleUp p else Inr p) = Inr p1" "rescan p1 t = Inr p'"
    by (auto simp: handleOverload_def split: sum.splits)
  from p1(1) have "rlocks p1 = rlocks p"
    by (auto simp: same_but_workers_def dest!: quickScaleUp_frame split: if_splits)
  with rescan_rlocks [OF p1(2)] show ?thesis by simp
qed

lemma dispatch_task_rlocks:
  assumes "dispatch_task p t = Inr p'"
  shows "rlocks p \<le> rlocks p'"
proof (cases "handleOverload p t = Inr p'")
  case True
  then show ?thesis by (simp add: handleOverload_rlocks)
next
  case False
  with assms obtain k w' p1 where
    "add_load (p\<lparr>workers := (workers p)[k := w']\<rparr>) k = Inr p1" "p' = p1\<lparr>rlocks := rlocks p1 + 1\<rparr>"
    by (auto simp: dispatch_task_def Let_def split: if_splits option.splits sum.splits)
  with add_load_rlocks [OF this(1)] show ?thesis by simp
qed

lemma pool_op_rlocks:
  assumes "pool_op p p'"
  shows "rlocks p \<le> rlocks p'"
  using assms
proof (cases rule: pool_op.cases)
  case (op_submit t)
  then show ?thesis by (auto simp: Submit_def Let_def split: if_splits)
next
  case (op_handover t)
  then show ?thesis by (auto simp: handover_def dest: dispatch_task_rlocks split: if_splits)
next
  case op_dispatch
  then show ?thesis
    by (auto simp: dispatch_step_def dest: dispatch_task_rlocks split: list.splits if_splits)
next
  case (op_overload t)
  then show ?thesis by (simp add: handleOverload_rlocks)
next
  case (op_rescan t)
  then show ?thesis by (simp add: rescan_rlocks)
next
  case (op_quick ct)
  then show ?thesis by (auto simp: same_but_workers_def dest!: quickScaleUp_commit_frame)
next
  case (op_adjust ct)
  then show ?thesis by (auto simp: same_but_workers_def dest!: adjustWorkerCount_commit_frame)
next
  case op_metrics
  then show ?thesis by (simp add: updateMetrics_def Let_def)
next
  case (op_parks i)
  then show ?thesis by (simp add: worker_ready_def)
next
  case op_stop
  then show ?thesis by (auto simp: stop_def split: if_splits)
qed

lemma rtranclp_pool_op_rlocks: "rtranclp pool_op p q \<Longrightarrow> rlocks p \<le> rlocks q"
  by (induction rule: rtranclp_induct) (auto dest: pool_op_rlocks)

lemma handoff_holds_rlock:
  assumes "selectWorker p = int k" and "k < length (workers p)"
    and "try_send (workers p ! k) t = Some w'" and "dispatch_task p t = Inr p1"
  shows "rlocks p1 = rlocks p + 1"
  using assms by (auto simp: dispatch_task_def add_load_def split: if_splits)

lemma dispatch_task_is_op:
  assumes "dispatch_task p t = Inr p'" and "\<not> chan_closed (taskQueue p)"
    and "chan_buf (taskQueue p) = []"
  shows "pool_op p p'"
  using assms by (intro op_handover [of p t]) (simp add: handover_def)

lemma direct_round_steps:
  assumes "dispatch_task (worker_ready q 0) t = Inr q'"
    and "\<not> chan_closed (taskQueue q)" and "chan_buf (taskQueue q) = []"
  shows "rtranclp pool_op q q'"
proof -
  have "pool_op q (worker_ready q 0)" by (rule op_parks)
  moreover have "pool_op (worker_ready q 0) q'"
    using assms by (intro dispatch_task_is_op [of _ t]) (simp_all add: worker_ready_def)
  ultimately show ?thesis by (metis r_into_rtranclp rtranclp_trans)
qed

text \<open>
  Claim C7 (where the code departs from it). Without a held read lock, \<open>quickScaleUp\<close>
  does what the claim says (lemma \<open>quickScaleUp_effect\<close>). But once the dispatcher has handed
  one task to its preselected worker, every later call of \<open>quickScaleUp\<close> below
  \<open>maxWorkers\<close> blocks in \<open>p.mu.Lock()\<close> and starts no worker.
\<close>

theorem quickScaleUp_blocks_after_handoff:
  assumes "selectWorker p = int k" and "k < length (workers p)"
    and "try_send (workers p ! k) t = Some w'" and "dispatch_task p t = Inr p1"
    and "rtranclp pool_op p1 q" and "currentWorkers q < maxWorkers q"
  shows "quickScaleUp q = Inl Blocked"
proof -
  have "0 < rlocks p1" using handoff_holds_rlock [OF assms(1-4)] by simp
  then have "0 < rlocks q" using rtranclp_pool_op_rlocks [OF assms(5)] by simp
  then show ?thesis
    using assms(6) by (simp add: quickScaleUp_def quickScaleUp_plan_def quickScaleUp_commit_def Let_def)
qed

theorem quickScaleUp_blocks_after_handoff_witness:
  "\<exists>p p1 q. NewWorkPool 5 10 1 = Inr p
     \<and> dispatch_task (worker_ready p 0) (Task 0 (Return None)) = Inr p1
     \<and> rlocks p1 = 1 \<and> rtranclp pool_op p1 q \<and> leaked_pool = Inr q
     \<and> currentWorkers q = 5 \<and> maxWorkers q = 10 \<and> overload_trigger q
     \<and> quickScaleUp_plan q = Some (5, 6)
     \<and> quickScaleUp q = Inl Blocked \<and> dispatch_step q = Inl Blocked"
proof -
  let ?a = "projr (NewWorkPool 5 10 1)"
  let ?t = "Task 0 (Return None)"
  let ?b = "projr (dispatch_task (worker_ready ?a 0) ?t)"
  let ?c = "projr (Submit ?b (Task 1 (Return None)))"
  let ?q = "projr leaked_pool"
  have new: "NewWorkPool 5 10 1 = Inr ?a" by code_simp
  have sel: "selectWorker (worker_ready ?a 0) = int 0"
    and len: "0 < length (workers (worker_ready ?a 0))"
    and snd: "try_send (workers (worker_ready ?a 0) ! 0) ?t
               = Some (the (try_send (workers (worker_ready ?a 0) ! 0) ?t))"
    and d: "dispatch_task (worker_ready ?a 0) ?t = Inr ?b"
    by code_simp+
  have "Submit ?b (Task 1 (Return None)) = Inr ?c" by code_simp
  then have "pool_op ?b ?c" by (rule op_submit)
  moreover have "pool_op ?c (updateMetrics ?c)" by (rule op_metrics)
  moreover have "updateMetrics ?c = ?q" by code_simp
  ultimately have run: "rtranclp pool_op ?b ?q" by (metis r_into_rtranclp rtranclp_trans)
  have facts: "rlocks ?b = 1" "leaked_pool = Inr ?q" "currentWorkers ?q = 5"
    "maxWorkers ?q = 10" "overload_trigger ?q" "quickScaleUp_plan ?q = Some (5, 6)"
    "dispatch_step ?q = Inl Blocked"
    by code_simp+
  have "currentWorkers ?q < maxWorkers ?q" using facts(3,4) by simp
  from quickScaleUp_blocks_after_handoff [OF sel len snd d run this]
  have "quickScaleUp ?q = Inl Blocked" .
  with new d run facts show ?thesis by blast
qed

text \<open>
  Claim C8 (where the code departs from it). Without a held read lock a tick applies
  the rule of the claim (lemmas \<open>adjustWorkerCount_effect\<close>, \<open>periodic_target_def\<close>). But
  once the dispatcher has handed one task to its preselected worker, every later tick whose
  rule asks for another count blocks in \<open>p.mu.Lock()\<close> and neither grows nor shrinks.
\<close>

theorem adjustWorkers_tick_blocks_after_handoff:
  assumes "selectWorker p = int k" and "k < length (workers p)"
    and "try_send (workers p ! k) t = Some w'" and "dispatch_task p t = Inr p1"
    and "rtranclp pool_op p1 q"
    and "snd (adjustWorkerCount_plan (updateMetrics q)) \<noteq> currentWorkers q"
  shows "adjustWorkers_tick q = Inl Blocked"
proof -
  have "0 < rlocks p1" using handoff_holds_rlock [OF assms(1-4)] by simp
  then have "0 < rlocks q" using rtranclp_pool_op_rlocks [OF assms(5)] by simp
  then have "0 < rlocks (updateMetrics q)" by (simp add: updateMetrics_def Let_def)
  moreover have "fst (adjustWorkerCount_plan (updateMetrics q)) = currentWorkers q"
    by (simp add: adjustWorkerCount_plan_def Let_def updateMetrics_def)
  ultimately show ?thesis
    using assms(6)
    by (simp add: adjustWorkers_tick_def adjustWorkerCount_def adjustWorkerCount_commit_def Let_def)
qed

theorem adjustWorkers_tick_blocks_after_handoff_witness:
  "\<exists>p p1 q. NewWorkPool 5 10 1 = Inr p
     \<and> dispatch_task (worker_ready p 0) (Task 0 (Return None)) = Inr p1
     \<and> rlocks p1 = 1 \<and> rtranclp pool_op p1 q \<and> served_pool = Inr q
     \<and> currentWorkers q = 5 \<and> grow_cond (updateMetrics q)
     \<and> adjustWorkerCount_plan (updateMetrics q) = (5, 6)
     \<and> adjustWorkers_tick q = Inl Blocked"
proof -
  let ?a = "projr (NewWorkPool 5 10 1)"
  let ?t = "Task 0 (Return None)"
  let ?r1 = "projr (direct_rounds 1 ?a)"
  let ?r2 = "projr (direct_rounds 2 ?a)"
  let ?r3 = "projr (direct_rounds 3 ?a)"
  let ?r4 = "projr (direct_rounds 4 ?a)"
  let ?r5 = "projr (direct_rounds 5 ?a)"
  let ?q = "projr served_pool"
  have new: "NewWorkPool 5 10 1 = Inr ?a" by code_simp
  have sel: "selectWorker (worker_ready ?a 0) = int 0"
    and len: "0 < length (workers (worker_ready ?a 0))"
    and snd: "try_send (workers (worker_ready ?a 0) ! 0) ?t
               = Some (the (try_send (workers (worker_ready ?a 0) ! 0) ?t))"
    and d: "dispatch_task (worker_ready ?a 0) ?t = Inr ?r1"
    by code_simp+
  have "rtranclp pool_op ?r1 ?r2"
    by (rule direct_round_steps [of _ "Task 1 (Return None)"]) code_simp+
  moreover have "rtranclp pool_op ?r2 ?r3"
    by (rule direct_round_steps [of _ "Task 2 (Return None)"]) code_simp+
  moreover have "rtranclp pool_op ?r3 ?r4"
    by (rule direct_round_steps [of _ "Task 3 (Return None)"]) code_simp+
  moreover have "rtranclp pool_op ?r4 ?r5"
    by (rule direct_round_steps [of _ "Task 4 (Return None)"]) code_simp+
  moreover have "Submit ?r5 (Task 5 (Return None)) = Inr ?q" by code_simp
  then have "rtranclp pool_op ?r5 ?q" by (intro r_into_rtranclp op_submit)
  ultimately have run: "rtranclp pool_op ?r1 ?q" by (meson rtranclp_trans)
  have facts: "rlocks ?r1 = 1" "served_pool = Inr ?q" "currentWorkers ?q = 5"
    "grow_cond (updateMetrics ?q)" "adjustWorkerCount_plan (updateMetrics ?q) = (5, 6)"
    by code_simp+
  have "snd (adjustWorkerCount_plan (updateMetrics ?q)) \<noteq> currentWorkers ?q"
    using facts(3,5) by simp
  from adjustWorkers_tick_blocks_after_handoff [OF sel len snd d run this]
  have "adjustWorkers_tick ?q = Inl Blocked" .
  with new d run facts show ?thesis by blast
qed

section \<open>Overload handling: results\<close>

lemma offer_Some:
  "offer ws t n = Some (i, w') \<Longrightarrow>
   n \<le> i \<and> i - n < length ws \<and> try_send (ws ! (i - n)) t = Some w'
   \<and> (\<forall>j<i - n. try_send (ws ! j) t = None)"
proof (induction ws arbitrary: n)
  case Nil
  then show ?case by simp
next
  case (Cons w ws)
  show ?case
  proof (cases "try_send w t")
    case None
    with Cons.prems have "offer ws t (Suc n) = Some (i, w')" by simp
    from Cons.IH [OF this] have ih: "Suc n \<le> i" "i - Suc n < length ws"
      "try_send (ws ! (i - Suc n)) t = Some w'" "\<forall>j<i - Suc n. try_send (ws ! j) t = None"
      by simp_all
    from ih(1) have d: "i - n = Suc (i - Suc n)" by simp
    show ?thesis
      unfolding d using ih None by (auto simp: less_Suc_eq_0_disj)
  next
    case (Some a)
    with Cons.prems show ?thesis by simp
  qed
qed

lemma offer_first:
  "k < length ws \<Longrightarrow> try_send (ws ! k) t = Some w' \<Longrightarrow>
   \<forall>j<k. try_send (ws ! j) t = None \<Longrightarrow> offer ws t n = Some (n + k, w')"
proof (induction ws arbitrary: n k)
  case Nil
  then show ?case by simp
next
  case (Cons w ws)
  show ?case
  proof (cases k)
    case 0
    with Cons.prems show ?thesis by simp
  next
    case (Suc k')
    with Cons.prems have "try_send w t = None" by auto
    moreover have "offer ws t (Suc n) = Some (Suc n + k', w')"
      using Cons.prems Suc by (intro Cons.IH) auto
    ultimately show ?thesis using Suc by simp
  qed
qed

lemma offer_None: "offer ws t n = None \<longleftrightarrow> (\<forall>w\<in>set ws. try_send w t = None)"
  by (induction ws arbitrary: n) (auto split: option.splits)

text \<open>
  Claim C3, as the code has it. The trigger of the emergency scale-up compares the
  occupancy that the last \<open>updateMetrics\<close> stored (zero before the first tick), not the
  occupancy of the queue at the call. When the first step returns with the pool \<open>p1\<close>
  (\<open>p\<close> itself when the trigger is off), the workers of \<open>p1\<close> are offered the task in
  order: the first one that takes it gets it and its counter is incremented; when none
  takes it, the task is started on its own and logged nowhere but in \<open>fallback\<close>.
\<close>

theorem handleOverload_policy:
  assumes "(if overload_trigger p then quickScaleUp p else Inr p) = Inr p1"
  shows "(k < length (workers p1) \<and> k < length (workerLoads p1)
          \<and> try_send (workers p1 ! k) t = Some w'
          \<and> (\<forall>j<k. try_send (workers p1 ! j) t = None) \<longrightarrow>
            handleOverload p t =
              Inr (p1\<lparr>workers := (workers p1)[k := w'],
                      workerLoads := (workerLoads p1)[k := workerLoads p1 ! k + 1]\<rparr>))
       \<and> ((\<forall>w\<in>set (workers p1). try_send w t = None) \<and> Run t = Return e \<longrightarrow>
            handleOverload p t = Inr (p1\<lparr>fallback := fallback p1 @ [t]\<rparr>))
       \<and> overload_trigger p = f64_greater (queueUsage (metrics p)) (adjustThreshold p)"
proof (intro conjI impI)
  assume a: "k < length (workers p1) \<and> k < length (workerLoads p1)
          \<and> try_send (workers p1 ! k) t = Some w'
          \<and> (\<forall>j<k. try_send (workers p1 ! j) t = None)"
  then have "offer (workers p1) t 0 = Some (0 + k, w')" by (intro offer_first) auto
  then show "handleOverload p t =
              Inr (p1\<lparr>workers := (workers p1)[k := w'],
                      workerLoads := (workerLoads p1)[k := workerLoads p1 ! k + 1]\<rparr>)"
    using assms a by (simp add: handleOverload_def rescan_def add_load_def)
next
  assume "(\<forall>w\<in>set (workers p1). try_send w t = None) \<and> Run t = Return e"
  then show "handleOverload p t = Inr (p1\<lparr>fallback := fallback p1 @ [t]\<rparr>)"
    using assms offer_None [of "workers p1" t 0]
    by (simp add: handleOverload_def rescan_def go_Run_def)
next
  show "overload_trigger p = f64_greater (queueUsage (metrics p)) (adjustThreshold p)"
    by (simp add: overload_trigger_def)
qed


theorem handleOverload_policy_witness:
  "\<exists>p p1 p' q q'. race_pool = Inr p \<and> overload_trigger p \<and> quickScaleUp p = Inr p1
     \<and> length (workers p) = 5 \<and> length (workers p1) = 6
     \<and> handleOverload p (Task 5 (Return None)) = Inr p'
     \<and> p' = p1\<lparr>fallback := [Task 5 (Return None)]\<rparr>
     \<and> grown_pool = Inr q \<and> \<not> overload_trigger q
     \<and> handleOverload q (Task 0 (Return None)) = Inr q'
     \<and> handled (workers q' ! 5) = [(Task 0 (Return None), None)]
     \<and> workerLoads q' = [0, 0, 0, 0, 0, 1] \<and> fallback q' = []"
proof -
  let ?p = "projr race_pool"
  let ?p1 = "projr (quickScaleUp ?p)"
  let ?t = "Task 5 (Return None)"
  let ?q = "projr grown_pool"
  let ?u = "Task 0 (Return None)"
  let ?w = "the (try_send (workers ?q ! 5) ?u)"
  have p: "race_pool = Inr ?p" "overload_trigger ?p" "quickScaleUp ?p = Inr ?p1"
    "length (workers ?p) = 5" "length (workers ?p1) = 6" "fallback ?p1 = []"
    by code_simp+
  have pre1: "(if overload_trigger ?p then quickScaleUp ?p else Inr ?p) = Inr ?p1"
    using p(2,3) by simp
  have none: "\<forall>w\<in>set (workers ?p1). try_send w ?t = None" by code_simp
  have ret: "Run ?t = Return None" by simp
  from handleOverload_policy [OF pre1, of 0 ?t undefined None] none ret
  have fb: "handleOverload ?p ?t = Inr (?p1\<lparr>fallback := fallback ?p1 @ [?t]\<rparr>)" by blast
  have q: "grown_pool = Inr ?q" "\<not> overload_trigger ?q" by code_simp+
  have pre2: "(if overload_trigger ?q then quickScaleUp ?q else Inr ?q) = Inr ?q"
    using q(2) by simp
  have k: "5 < length (workers ?q)" "5 < length (workerLoads ?q)"
    "try_send (workers ?q ! 5) ?u = Some ?w"
    "\<forall>j<5. try_send (workers ?q ! j) ?u = None"
    by code_simp+
  from handleOverload_policy [OF pre2, of 5 ?u ?w None] k
  have tk: "handleOverload ?q ?u =
      Inr (?q\<lparr>workers := (workers ?q)[5 := ?w],
              workerLoads := (workerLoads ?q)[5 := workerLoads ?q ! 5 + 1]\<rparr>)" by blast
  let ?q' = "?q\<lparr>workers := (workers ?q)[5 := ?w],
              workerLoads := (workerLoads ?q)[5 := workerLoads ?q ! 5 + 1]\<rparr>"
  have q': "handled (workers ?q' ! 5) = [(?u, None)]" "workerLoads ?q' = [0, 0, 0, 0, 0, 1]"
    "fallback ?q' = []"
    by code_simp+
  have fb': "handleOverload ?p ?t = Inr (?p1\<lparr>fallback := [?t]\<rparr>)"
    using fb p(6) by simp
  from p(1-5) fb' q tk q' show ?thesis by blast
qed

text \<open>
  Claim C3 as stated fails: with a full queue (occupancy 1 at the call) but no tick yet,
  \<open>handleOverload\<close> starts no worker, where \<open>quickScaleUp\<close> would have started one.
\<close>

theorem stale_occupancy_no_scale_up:
  "\<exists>p p' g. stale_pool = Inr p
     \<and> occupancy_now p = Fin 1 \<and> f64_greater (occupancy_now p) (adjustThreshold p)
     \<and> queueUsage (metrics p) = Fin 0
     \<and> quickScaleUp p = Inr g \<and> currentWorkers g = 6
     \<and> handleOverload p (Task 0 (Return None)) = Inr p'
     \<and> currentWorkers p' = 5 \<and> length (workers p') = 5"
proof -
  let ?a = "projr stale_pool"
  let ?g = "projr (quickScaleUp ?a)"
  let ?b = "projr (handleOverload ?a (Task 0 (Return None)))"
  have "stale_pool = Inr ?a" "occupancy_now ?a = Fin 1"
    "f64_greater (occupancy_now ?a) (adjustThreshold ?a)"
    "queueUsage (metrics ?a) = Fin 0"
    "quickScaleUp ?a = Inr ?g" "currentWorkers ?g = 6"
    "handleOverload ?a (Task 0 (Return None)) = Inr ?b"
    "currentWorkers ?b = 5" "length (workers ?b) = 5"
    by code_simp+
  then show ?thesis by blast
qed


end
